theory Spec2Isabelle
  imports Main
begin

section \<open>Data model of osfs (inode.c, file.c)\<close>

text \<open>
  The header \<^verbatim>\<open>osfs.h\<close> is not among the sources, so the field types of the two structs
  are read off their uses. A block number is a \<^verbatim>\<open>uint32_t\<close>: a natural number below
  \<open>2 ^ 32\<close>, and the value \<^verbatim>\<open>-1\<close> stored in a \<^verbatim>\<open>uint32_t\<close> slot is \<open>2 ^ 32 - 1\<close>.
  Run lengths are \<^verbatim>\<open>int32_t\<close> with \<^verbatim>\<open>-1\<close> marking an unused slot. The free counter
  \<^verbatim>\<open>nr_free_blocks\<close> is only incremented and decremented by the code; its C type is
  declared in the missing header, and the model does not bound it: a decrement below 0
  gives a negative number here, where an unsigned field would wrap around. \<^verbatim>\<open>i_size\<close>
  and \<^verbatim>\<open>i_blocks\<close> are counts.

  The bitmap is a list of bits, \<open>True\<close> for an allocated block. The block store
  \<^verbatim>\<open>data_blocks\<close> is a list of bytes; bytes are only copied, never computed with, and are
  natural numbers here. The two arrays of an inode are lists whose length is the number
  of slots allocated for them. An access outside an array or outside
  the block store is undefined behaviour in C; a function that performs one returns
  \<open>None\<close>.
\<close>

type_synonym byte = nat

record osfs_sb_info =
  block_count :: nat
  nr_free_blocks :: int
  block_bitmap :: "bool list"
  data_blocks :: "byte list"

record osfs_inode =
  i_size :: nat
  i_blocks :: nat
  i_blocks_ptr :: "nat list"
  i_blocks_length :: "int list"

definition ENOSPC :: int where
  "ENOSPC = 28"

definition EFAULT :: int where
  "EFAULT = 14"

text \<open>\<^verbatim>\<open>(uint32_t)-1\<close>, the value written into an unused slot of \<^verbatim>\<open>i_blocks_ptr\<close>.\<close>

definition NO_BLOCK :: nat where
  "NO_BLOCK = 2 ^ 32 - 1"

subsection \<open>Bit operations of the kernel\<close>

text \<open>
  \<^verbatim>\<open>test_bit\<close>, \<^verbatim>\<open>set_bit\<close> and \<^verbatim>\<open>clear_bit\<close> on the list of bits. The allocators only
  pass indices below \<open>block_count\<close>. \<^verbatim>\<open>osfs_free_data_block\<close> passes its argument as it
  is: an index past the end of the list addresses memory that is not part of the
  modelled bitmap, and the list is left as it is.
\<close>

definition test_bit :: "nat \<Rightarrow> bool list \<Rightarrow> bool" where
  "test_bit i bm = bm ! i"

definition set_bit :: "nat \<Rightarrow> bool list \<Rightarrow> bool list" where
  "set_bit i bm = bm[i := True]"

definition clear_bit :: "nat \<Rightarrow> bool list \<Rightarrow> bool list" where
  "clear_bit i bm = bm[i := False]"

text \<open>The number of zero bits of the bitmap.\<close>

definition zero_bits :: "bool list \<Rightarrow> int" where
  "zero_bits bm = int (length (filter (\<lambda>b. \<not> b) bm))"

text \<open>A pool is well formed when the bitmap has one bit per block.\<close>

definition pool_wf :: "osfs_sb_info \<Rightarrow> bool" where
  "pool_wf sb \<longleftrightarrow> length (block_bitmap sb) = block_count sb"

text \<open>The consistency of counter and bitmap that section 3 of the specification asks for.\<close>

definition consistent :: "osfs_sb_info \<Rightarrow> bool" where
  "consistent sb \<longleftrightarrow> pool_wf sb \<and> nr_free_blocks sb = zero_bits (block_bitmap sb)"

subsection \<open>inode.c: \<^verbatim>\<open>osfs_free_data_block\<close>\<close>

definition osfs_free_data_block :: "osfs_sb_info \<Rightarrow> nat \<Rightarrow> osfs_sb_info" where
  "osfs_free_data_block sb_info block_no =
     sb_info\<lparr>block_bitmap := clear_bit block_no (block_bitmap sb_info),
             nr_free_blocks := nr_free_blocks sb_info + 1\<rparr>"

subsection \<open>inode.c: \<^verbatim>\<open>osfs_alloc_data_block\<close>\<close>

text \<open>
  The \<^verbatim>\<open>for\<close> loop over \<open>i\<close>, started at \<open>i = 0\<close>. The result is the return value, the
  pool and the value stored through \<^verbatim>\<open>block_no\<close> (\<open>None\<close> when nothing is stored).
\<close>

function alloc_data_block_loop :: "osfs_sb_info \<Rightarrow> nat \<Rightarrow> int \<times> osfs_sb_info \<times> nat option" where
  "alloc_data_block_loop sb_info i =
     (if i < block_count sb_info then
        (if \<not> test_bit i (block_bitmap sb_info) then
           (0, sb_info\<lparr>block_bitmap := set_bit i (block_bitmap sb_info),
                      nr_free_blocks := nr_free_blocks sb_info - 1\<rparr>, Some i)
         else alloc_data_block_loop sb_info (i + 1))
      else (- ENOSPC, sb_info, None))"
  by pat_completeness auto
termination
  by (relation "measure (\<lambda>(sb_info, i). block_count sb_info - i)") auto

declare alloc_data_block_loop.simps [simp del]

definition osfs_alloc_data_block :: "osfs_sb_info \<Rightarrow> int \<times> osfs_sb_info \<times> nat option" where
  "osfs_alloc_data_block sb_info = alloc_data_block_loop sb_info 0"

subsection \<open>inode.c: \<^verbatim>\<open>osfs_realloc_multiple_data_blocks\<close>\<close>

text \<open>
  The state of the two allocators while they scan: the pool, the two arrays of the
  caller, and the locals \<^verbatim>\<open>block_idx\<close> and \<^verbatim>\<open>block_count\<close> (here \<open>blk_cnt\<close>, since
  \<open>block_count\<close> is the field of the superblock).
\<close>

record scan =
  pool :: osfs_sb_info
  block_nos :: "nat list"
  block_length :: "int list"
  block_idx :: nat
  blk_cnt :: int

text \<open>
  The first loop (lines 156 to 162): adds up the lengths of the slots in front of the
  first \<^verbatim>\<open>-1\<close>, looking at \<open>block_needed\<close> slots at most. It yields \<open>block_idx\<close> and the sum.
\<close>

function count_loop :: "int list \<Rightarrow> int \<Rightarrow> nat \<Rightarrow> int \<Rightarrow> (nat \<times> int) option" where
  "count_loop lens block_needed idx cnt =
     (if int idx < block_needed then
        (if idx < length lens then
           (if lens ! idx \<noteq> - 1 then count_loop lens block_needed (idx + 1) (cnt + lens ! idx)
            else Some (idx, cnt))
         else None)
      else Some (idx, cnt))"
  by pat_completeness auto
termination
  by (relation "measure (\<lambda>(lens, block_needed, idx, cnt). length lens - idx)") auto

declare count_loop.simps [simp del]

text \<open>
  The inner \<^verbatim>\<open>while\<close> loop (lines 183 to 190), which extends the run over the free bits
  that follow. The result is \<open>(True, _, _)\<close> when the loop left the function with
  \<^verbatim>\<open>return 0\<close>, and \<open>(False, i, _)\<close> when the loop ended with the scan position \<open>i\<close>.
\<close>

definition extend_step :: "nat \<Rightarrow> scan \<Rightarrow> scan" where
  "extend_step i st =
     st\<lparr>pool := (pool st)\<lparr>block_bitmap := set_bit i (block_bitmap (pool st)),
                           nr_free_blocks := nr_free_blocks (pool st) - 1\<rparr>,
        block_length := (block_length st)[block_idx st := block_length st ! block_idx st + 1],
        blk_cnt := blk_cnt st + 1\<rparr>"

function realloc_extend :: "int \<Rightarrow> nat \<Rightarrow> scan \<Rightarrow> (bool \<times> nat \<times> scan) option" where
  "realloc_extend block_needed i st =
     (if i < block_count (pool st) \<and> \<not> test_bit i (block_bitmap (pool st)) then
        (if block_idx st < length (block_length st) then
           (if blk_cnt (extend_step i st) = block_needed then Some (True, i + 1, extend_step i st)
            else realloc_extend block_needed (i + 1) (extend_step i st))
         else None)
      else Some (False, i, st))"
  by pat_completeness auto
termination
  by (relation "measure (\<lambda>(block_needed, i, st). block_count (pool st) - i)")
     (auto simp: extend_step_def)

declare realloc_extend.simps [simp del]

lemma realloc_extend_pos:
  "realloc_extend block_needed i st = Some (r, i', st') \<Longrightarrow>
     i \<le> i' \<and> block_count (pool st') = block_count (pool st)"
proof (induction block_needed i st arbitrary: r i' st' rule: realloc_extend.induct)
  case (1 block_needed i st)
  show ?case
  proof (cases "i < block_count (pool st) \<and> \<not> test_bit i (block_bitmap (pool st))
                \<and> block_idx st < length (block_length st)
                \<and> blk_cnt (extend_step i st) \<noteq> block_needed")
    case True
    with "1.prems" have "realloc_extend block_needed (i + 1) (extend_step i st) = Some (r, i', st')"
      by (subst (asm) realloc_extend.simps) simp
    with True "1.IH"
    have "i + 1 \<le> i' \<and> block_count (pool st') = block_count (pool (extend_step i st))"
      by blast
    then show ?thesis by (simp add: extend_step_def)
  next
    case False
    with "1.prems" show ?thesis
      by (subst (asm) realloc_extend.simps) (auto split: if_splits simp: extend_step_def)
  qed
qed

text \<open>
  The body of the \<^verbatim>\<open>for\<close> loop at a free bit, up to the first test of \<^verbatim>\<open>block_count\<close>
  (lines 176 to 180): the bit is set and a new run of length 1 is stored at \<open>block_idx\<close>.
\<close>

definition claim_first :: "nat \<Rightarrow> scan \<Rightarrow> scan" where
  "claim_first i st =
     st\<lparr>pool := (pool st)\<lparr>block_bitmap := set_bit i (block_bitmap (pool st)),
                           nr_free_blocks := nr_free_blocks (pool st) - 1\<rparr>,
        block_nos := (block_nos st)[block_idx st := i],
        block_length := (block_length st)[block_idx st := 1],
        blk_cnt := blk_cnt st + 1\<rparr>"

text \<open>
  The \<^verbatim>\<open>for\<close> loop (lines 174 to 194). After the inner loop the code steps \<open>i\<close> back by
  one and the loop header steps it forward again, so the scan goes on at the position
  where the inner loop stopped.
\<close>

function realloc_scan :: "int \<Rightarrow> nat \<Rightarrow> scan \<Rightarrow> (int \<times> scan) option" where
  "realloc_scan block_needed i st =
     (if i < block_count (pool st) then
        (if \<not> test_bit i (block_bitmap (pool st)) then
           (if block_idx st < length (block_nos st) \<and> block_idx st < length (block_length st) then
              (if blk_cnt (claim_first i st) = block_needed then Some (0, claim_first i st)
               else (case realloc_extend block_needed (i + 1) (claim_first i st) of
                       None \<Rightarrow> None
                     | Some (returned, i', st') \<Rightarrow>
                         if returned then Some (0, st')
                         else realloc_scan block_needed i' (st'\<lparr>block_idx := block_idx st' + 1\<rparr>)))
            else None)
         else realloc_scan block_needed (i + 1) st)
      else Some (- ENOSPC, st))"
  by pat_completeness auto
termination
proof (relation "measure (\<lambda>(block_needed, i, st). block_count (pool st) - i)", goal_cases)
  case 1
  show ?case by simp
next
  case (2 block_needed i st x2 returned y i' st')
  then have "realloc_extend block_needed (i + 1) (claim_first i st) = Some (returned, i', st')"
    by simp
  from realloc_extend_pos [OF this]
  have "i + 1 \<le> i'" and "block_count (pool st') = block_count (pool st)"
    by (simp_all add: claim_first_def)
  with \<open>i < block_count (pool st)\<close> show ?case
    by simp
next
  case (3 block_needed i st)
  then show ?case by simp
qed

declare realloc_scan.simps [simp del]

definition osfs_realloc_multiple_data_blocks ::
  "osfs_sb_info \<Rightarrow> nat list \<Rightarrow> int list \<Rightarrow> int \<Rightarrow> (int \<times> osfs_sb_info \<times> nat list \<times> int list) option" where
  "osfs_realloc_multiple_data_blocks sb_info nos lens block_needed =
     (case count_loop lens block_needed 0 0 of
        None \<Rightarrow> None
      | Some (idx, cnt) \<Rightarrow>
          (case realloc_scan block_needed 0
                  \<lparr>pool = sb_info, block_nos = nos, block_length = lens,
                   block_idx = idx, blk_cnt = cnt\<rparr> of
             None \<Rightarrow> None
           | Some (rc, st) \<Rightarrow> Some (rc, pool st, block_nos st, block_length st)))"

subsection \<open>inode.c: \<^verbatim>\<open>osfs_alloc_multiple_data_blocks\<close>\<close>

text \<open>
  The inner \<^verbatim>\<open>while\<close> loop (lines 138 to 145). Its test is \<^verbatim>\<open>test_bit\<close> without a
  negation, and it increments the slot \<^verbatim>\<open>block_length[block_count]\<close>.
\<close>

definition alloc_extend_step :: "nat \<Rightarrow> scan \<Rightarrow> scan" where
  "alloc_extend_step i st =
     st\<lparr>pool := (pool st)\<lparr>block_bitmap := set_bit i (block_bitmap (pool st)),
                           nr_free_blocks := nr_free_blocks (pool st) - 1\<rparr>,
        block_length := (block_length st)
           [nat (blk_cnt st) := block_length st ! nat (blk_cnt st) + 1],
        blk_cnt := blk_cnt st + 1\<rparr>"

function alloc_extend :: "int \<Rightarrow> nat \<Rightarrow> scan \<Rightarrow> (bool \<times> nat \<times> scan) option" where
  "alloc_extend block_needed i st =
     (if i < block_count (pool st) \<and> test_bit i (block_bitmap (pool st)) then
        (if 0 \<le> blk_cnt st \<and> nat (blk_cnt st) < length (block_length st) then
           (if blk_cnt (alloc_extend_step i st) = block_needed
            then Some (True, i + 1, alloc_extend_step i st)
            else alloc_extend block_needed (i + 1) (alloc_extend_step i st))
         else None)
      else Some (False, i, st))"
  by pat_completeness auto
termination
  by (relation "measure (\<lambda>(block_needed, i, st). block_count (pool st) - i)")
     (auto simp: alloc_extend_step_def)

declare alloc_extend.simps [simp del]

lemma alloc_extend_pos:
  "alloc_extend block_needed i st = Some (r, i', st') \<Longrightarrow>
     i \<le> i' \<and> block_count (pool st') = block_count (pool st)"
proof (induction block_needed i st arbitrary: r i' st' rule: alloc_extend.induct)
  case (1 block_needed i st)
  show ?case
  proof (cases "i < block_count (pool st) \<and> test_bit i (block_bitmap (pool st))
                \<and> 0 \<le> blk_cnt st \<and> nat (blk_cnt st) < length (block_length st)
                \<and> blk_cnt (alloc_extend_step i st) \<noteq> block_needed")
    case True
    with "1.prems" have "alloc_extend block_needed (i + 1) (alloc_extend_step i st) = Some (r, i', st')"
      by (subst (asm) alloc_extend.simps) simp
    with True "1.IH"
    have "i + 1 \<le> i' \<and> block_count (pool st') = block_count (pool (alloc_extend_step i st))"
      by blast
    then show ?thesis by (simp add: alloc_extend_step_def)
  next
    case False
    with "1.prems" show ?thesis
      by (subst (asm) alloc_extend.simps) (auto split: if_splits simp: alloc_extend_step_def)
  qed
qed

text \<open>
  The \<^verbatim>\<open>for\<close> loop (lines 129 to 148). \<^verbatim>\<open>block_idx\<close> is never incremented: every run is
  stored at slot 0.
\<close>

function alloc_scan :: "int \<Rightarrow> nat \<Rightarrow> scan \<Rightarrow> (int \<times> scan) option" where
  "alloc_scan block_needed i st =
     (if i < block_count (pool st) then
        (if \<not> test_bit i (block_bitmap (pool st)) then
           (if block_idx st < length (block_nos st) \<and> block_idx st < length (block_length st) then
              (if blk_cnt (claim_first i st) = block_needed then Some (0, claim_first i st)
               else (case alloc_extend block_needed (i + 1) (claim_first i st) of
                       None \<Rightarrow> None
                     | Some (returned, i', st') \<Rightarrow>
                         if returned then Some (0, st')
                         else alloc_scan block_needed i' st'))
            else None)
         else alloc_scan block_needed (i + 1) st)
      else Some (- ENOSPC, st))"
  by pat_completeness auto
termination
proof (relation "measure (\<lambda>(block_needed, i, st). block_count (pool st) - i)", goal_cases)
  case 1
  show ?case by simp
next
  case (2 block_needed i st x2 returned y i' st')
  then have "alloc_extend block_needed (i + 1) (claim_first i st) = Some (returned, i', st')"
    by simp
  from alloc_extend_pos [OF this]
  have "i + 1 \<le> i'" and "block_count (pool st') = block_count (pool st)"
    by (simp_all add: claim_first_def)
  with \<open>i < block_count (pool st)\<close> show ?case
    by simp
next
  case (3 block_needed i st)
  then show ?case by simp
qed

declare alloc_scan.simps [simp del]

definition osfs_alloc_multiple_data_blocks ::
  "osfs_sb_info \<Rightarrow> nat list \<Rightarrow> int list \<Rightarrow> int \<Rightarrow> (int \<times> osfs_sb_info \<times> nat list \<times> int list) option" where
  "osfs_alloc_multiple_data_blocks sb_info nos lens block_needed =
     (case alloc_scan block_needed 0
             \<lparr>pool = sb_info, block_nos = nos, block_length = lens,
              block_idx = 0, blk_cnt = 0\<rparr> of
        None \<Rightarrow> None
      | Some (rc, st) \<Rightarrow> Some (rc, pool st, block_nos st, block_length st))"

section \<open>file.c\<close>

text \<open>
  \<^verbatim>\<open>BLOCK_SIZE\<close> is a macro of the missing header: it is the parameter \<open>bs\<close> of the
  functions below. File positions and lengths are natural numbers: the model covers the
  calls in which \<^verbatim>\<open>*ppos\<close> is not negative and no sum or product leaves the range of its
  C type. A division by \<^verbatim>\<open>BLOCK_SIZE\<close> = 0 is undefined and gives \<open>None\<close>.
\<close>

subsection \<open>The translation loop of \<^verbatim>\<open>osfs_read\<close> (lines 44 to 51) and \<^verbatim>\<open>osfs_write\<close> (lines 147 to 154)\<close>

text \<open>
  The loop over \<^verbatim>\<open>idx_of_block\<close> and \<^verbatim>\<open>idx_of_iblock\<close>; it reads \<^verbatim>\<open>i_blocks_length\<close> and
  yields the final \<open>(idx_of_iblock, idx_of_block)\<close>.
\<close>

function translate_loop :: "int list \<Rightarrow> int \<Rightarrow> nat \<Rightarrow> (nat \<times> int) option" where
  "translate_loop lens idx_of_block idx_of_iblock =
     (if 0 < idx_of_block then
        (if idx_of_iblock < length lens then
           (if lens ! idx_of_iblock \<le> idx_of_block
            then translate_loop lens (idx_of_block - lens ! idx_of_iblock) (idx_of_iblock + 1)
            else Some (idx_of_iblock, idx_of_block))
         else None)
      else Some (idx_of_iblock, idx_of_block))"
  by pat_completeness auto
termination
  by (relation "measure (\<lambda>(lens, idx_of_block, idx_of_iblock). length lens - idx_of_iblock)") auto

declare translate_loop.simps [simp del]

text \<open>
  The offset of \<^verbatim>\<open>data_block\<close> from \<^verbatim>\<open>sb_info->data_blocks\<close> (lines 52 and 155):
  \<^verbatim>\<open>i_blocks_ptr[idx_of_iblock] * BLOCK_SIZE + idx_of_block * BLOCK_SIZE + offset_in_block\<close>.
\<close>

definition data_block_offset :: "nat \<Rightarrow> nat list \<Rightarrow> nat \<Rightarrow> int \<Rightarrow> nat \<Rightarrow> int" where
  "data_block_offset bs ptr idx_of_iblock idx_of_block offset_in_block =
     int (ptr ! idx_of_iblock) * int bs + idx_of_block * int bs + int offset_in_block"

subsection \<open>\<^verbatim>\<open>osfs_read\<close>\<close>

text \<open>
  The buffer of the caller is the list \<open>buf\<close>; \<^verbatim>\<open>copy_to_user\<close> fails when the buffer is
  shorter than the number of bytes to copy, and has then filled the part that exists.
  The result is the return value, the buffer and \<^verbatim>\<open>*ppos\<close>.
\<close>

definition osfs_read ::
  "nat \<Rightarrow> osfs_sb_info \<Rightarrow> osfs_inode \<Rightarrow> byte list \<Rightarrow> nat \<Rightarrow> nat \<Rightarrow> (int \<times> byte list \<times> nat) option" where
  "osfs_read bs sb_info osfs_inode buf len ppos =
     (if i_blocks osfs_inode = 0 then Some (0, buf, ppos)
      else if i_size osfs_inode \<le> ppos then Some (0, buf, ppos)
      else if bs = 0 then None
      else
       (case translate_loop (i_blocks_length osfs_inode) (int (ppos div bs)) 0 of
          None \<Rightarrow> None
        | Some (idx_of_iblock, idx_of_block) \<Rightarrow>
            if length (i_blocks_ptr osfs_inode) \<le> idx_of_iblock then None
            else
              (let len' = (if i_size osfs_inode < ppos + len then i_size osfs_inode - ppos else len);
                   off = nat (data_block_offset bs (i_blocks_ptr osfs_inode)
                                idx_of_iblock idx_of_block (ppos mod bs));
                   n = min len' (length buf)
               in if length (data_blocks sb_info) < off + n then None
                  else if length buf < len'
                  then Some (- EFAULT, take n (drop off (data_blocks sb_info)), ppos)
                  else Some (int len',
                             take len' (drop off (data_blocks sb_info)) @ drop len' buf,
                             ppos + len'))))"

subsection \<open>\<^verbatim>\<open>osfs_write\<close>\<close>

text \<open>\<^verbatim>\<open>write_len\<close> (line 156).\<close>

definition write_len :: "nat \<Rightarrow> nat \<Rightarrow> nat \<Rightarrow> nat" where
  "write_len bs len ppos =
     (if bs - ppos mod bs < len then bs - ppos mod bs else len)"

text \<open>Storing the bytes \<open>xs\<close> at offset \<open>off\<close> of the block store.\<close>

definition store_bytes :: "nat \<Rightarrow> byte list \<Rightarrow> byte list \<Rightarrow> byte list" where
  "store_bytes off xs mem = take off mem @ xs @ drop (off + length xs) mem"

text \<open>
  The copy loop (lines 143 to 163). \<^verbatim>\<open>copy_from_user\<close> fails when the buffer of the
  caller holds fewer bytes than \<^verbatim>\<open>write_len\<close>; it has then copied the bytes that exist and
  filled the rest of the destination with zero bytes. The result is \<open>0\<close> or \<open>- EFAULT\<close>,
  the pool and \<^verbatim>\<open>*ppos\<close>.
\<close>

function write_loop ::
  "nat \<Rightarrow> osfs_sb_info \<Rightarrow> osfs_inode \<Rightarrow> byte list \<Rightarrow> nat \<Rightarrow> nat \<Rightarrow> (int \<times> osfs_sb_info \<times> nat) option" where
  "write_loop bs sb_info osfs_inode buf len ppos =
     (if 0 < len then
        (if bs = 0 then None
         else
          (case translate_loop (i_blocks_length osfs_inode) (int (ppos div bs)) 0 of
             None \<Rightarrow> None
           | Some (idx_of_iblock, idx_of_block) \<Rightarrow>
               if length (i_blocks_ptr osfs_inode) \<le> idx_of_iblock then None
               else if length (data_blocks sb_info)
                       < nat (data_block_offset bs (i_blocks_ptr osfs_inode)
                                idx_of_iblock idx_of_block (ppos mod bs)) + write_len bs len ppos
               then None
               else if length buf < write_len bs len ppos
               then Some (- EFAULT,
                          sb_info\<lparr>data_blocks :=
                             store_bytes (nat (data_block_offset bs (i_blocks_ptr osfs_inode)
                                                 idx_of_iblock idx_of_block (ppos mod bs)))
                               (buf @ replicate (write_len bs len ppos - length buf) 0)
                               (data_blocks sb_info)\<rparr>,
                          ppos)
               else write_loop bs
                      (sb_info\<lparr>data_blocks :=
                          store_bytes (nat (data_block_offset bs (i_blocks_ptr osfs_inode)
                                              idx_of_iblock idx_of_block (ppos mod bs)))
                            (take (write_len bs len ppos) buf)
                            (data_blocks sb_info)\<rparr>)
                      osfs_inode
                      (drop (write_len bs len ppos) buf)
                      (len - write_len bs len ppos)
                      (ppos + write_len bs len ppos)))
      else Some (0, sb_info, ppos))"
  by pat_completeness auto
termination
proof (relation "measure (\<lambda>(bs, sb_info, osfs_inode, buf, len, ppos). len)", goal_cases)
  case 1
  show ?case by simp
next
  case (2 bs sb_info osfs_inode buf len ppos x2 idx_of_iblock idx_of_block)
  from \<open>bs \<noteq> 0\<close> have "ppos mod bs < bs" by simp
  with \<open>0 < len\<close> have "0 < write_len bs len ppos"
    by (simp add: write_len_def)
  with \<open>0 < len\<close> show ?case by simp
qed

declare write_loop.simps [simp del]

text \<open>
  \<^verbatim>\<open>krealloc\<close> to \<open>n\<close> slots keeps the old slots; the new ones are not initialised (here
  \<open>fill\<close>). \<^verbatim>\<open>kmalloc\<close> and \<^verbatim>\<open>krealloc\<close> are taken to succeed: the code does not test their
  results.
\<close>

definition krealloc :: "'a list \<Rightarrow> nat \<Rightarrow> 'a \<Rightarrow> 'a list" where
  "krealloc xs n fill = take n xs @ replicate (n - length xs) fill"

text \<open>The initialising \<^verbatim>\<open>for\<close> statements (lines 103 to 106 and 112 to 115): slots \<open>k\<close> to \<open>n - 1\<close> get \<open>v\<close>.\<close>

definition fill_slots :: "nat \<Rightarrow> nat \<Rightarrow> 'a \<Rightarrow> 'a list \<Rightarrow> 'a list" where
  "fill_slots k n v xs = fold (\<lambda>i ys. ys[i := v]) [k..<n] xs"

text \<open>\<^verbatim>\<open>block_needed\<close> (line 96).\<close>

definition blocks_needed :: "nat \<Rightarrow> nat \<Rightarrow> nat \<Rightarrow> int" where
  "blocks_needed bs ppos len =
     int ((ppos + len) div bs) + (if (ppos + len) mod bs = 0 then 0 else 1)"

text \<open>Lines 138 to 180: the size is set, then the bytes are copied.\<close>

definition write_copy ::
  "nat \<Rightarrow> osfs_sb_info \<Rightarrow> osfs_inode \<Rightarrow> byte list \<Rightarrow> nat \<Rightarrow> nat
     \<Rightarrow> (int \<times> osfs_sb_info \<times> osfs_inode \<times> nat) option" where
  "write_copy bs sb_info osfs_inode buf len ppos =
     (case write_loop bs sb_info (osfs_inode\<lparr>i_size := ppos + len\<rparr>) buf len ppos of
        None \<Rightarrow> None
      | Some (rc, sb_info', ppos') \<Rightarrow>
          Some (if rc < 0 then rc else int len, sb_info',
                osfs_inode\<lparr>i_size := ppos + len\<rparr>, ppos'))"

text \<open>The arrays of the inode after lines 99 to 116.\<close>

definition grow_arrays :: "osfs_inode \<Rightarrow> int \<Rightarrow> osfs_inode" where
  "grow_arrays osfs_inode block_needed =
     (if i_blocks osfs_inode = 0
      then osfs_inode\<lparr>i_blocks_ptr := fill_slots 0 (nat block_needed) NO_BLOCK
                                         (replicate (nat block_needed) 0),
                       i_blocks_length := fill_slots 0 (nat block_needed) (- 1)
                                            (replicate (nat block_needed) 0)\<rparr>
      else osfs_inode\<lparr>i_blocks_ptr := fill_slots (i_blocks osfs_inode) (nat block_needed)
                                         NO_BLOCK
                                         (krealloc (i_blocks_ptr osfs_inode) (nat block_needed) 0),
                       i_blocks_length := fill_slots (i_blocks osfs_inode) (nat block_needed)
                                            (- 1)
                                            (krealloc (i_blocks_length osfs_inode)
                                               (nat block_needed) 0)\<rparr>)"

text \<open>
  The result is the return value, the pool, the inode and \<^verbatim>\<open>*ppos\<close>. The length \<open>len\<close> is
  an argument of its own, as in the C signature.
\<close>

definition osfs_write ::
  "nat \<Rightarrow> osfs_sb_info \<Rightarrow> osfs_inode \<Rightarrow> byte list \<Rightarrow> nat \<Rightarrow> nat
     \<Rightarrow> (int \<times> osfs_sb_info \<times> osfs_inode \<times> nat) option" where
  "osfs_write bs sb_info osfs_inode buf len ppos =
     (if bs = 0 then None
      else if int (i_blocks osfs_inode) < blocks_needed bs ppos len then
        (case osfs_realloc_multiple_data_blocks sb_info
                (i_blocks_ptr (grow_arrays osfs_inode (blocks_needed bs ppos len)))
                (i_blocks_length (grow_arrays osfs_inode (blocks_needed bs ppos len)))
                (blocks_needed bs ppos len) of
           None \<Rightarrow> None
         | Some (rc, sb_info', ptr', lens') \<Rightarrow>
             if rc < 0
             then Some (- ENOSPC, sb_info',
                        osfs_inode\<lparr>i_blocks_ptr := ptr', i_blocks_length := lens'\<rparr>, ppos)
             else write_copy bs sb_info'
                    (osfs_inode\<lparr>i_blocks_ptr := ptr', i_blocks_length := lens',
                                i_blocks := nat (blocks_needed bs ppos len)\<rparr>)
                    buf len ppos)
      else write_copy bs sb_info osfs_inode buf len ppos)"

subsection \<open>\<^verbatim>\<open>osfs_unlink\<close>\<close>

text \<open>
  The inner loop (lines 211 to 213) frees the blocks \<^verbatim>\<open>i_blocks_ptr[i] + j\<close> for
  \<open>0 \<le> j < i_blocks_length[i]\<close>; the sum is a \<^verbatim>\<open>uint32_t\<close>.
\<close>

definition free_run :: "osfs_sb_info \<Rightarrow> nat \<Rightarrow> int \<Rightarrow> osfs_sb_info" where
  "free_run sb_info start n =
     fold (\<lambda>j sb. osfs_free_data_block sb ((start + j) mod 2 ^ 32)) [0..<nat n] sb_info"

text \<open>The outer loop (lines 210 to 216).\<close>

function unlink_loop :: "osfs_sb_info \<Rightarrow> osfs_inode \<Rightarrow> nat \<Rightarrow> (osfs_sb_info \<times> osfs_inode) option" where
  "unlink_loop sb_info osfs_inode i =
     (if i < i_blocks osfs_inode then
        (if i < length (i_blocks_ptr osfs_inode) \<and> i < length (i_blocks_length osfs_inode) then
           unlink_loop
             (free_run sb_info (i_blocks_ptr osfs_inode ! i) (i_blocks_length osfs_inode ! i))
             (osfs_inode\<lparr>i_blocks_ptr := (i_blocks_ptr osfs_inode)[i := NO_BLOCK],
                         i_blocks_length := (i_blocks_length osfs_inode)[i := - 1]\<rparr>)
             (i + 1)
         else None)
      else Some (sb_info, osfs_inode))"
  by pat_completeness auto
termination
  by (relation "measure (\<lambda>(sb_info, osfs_inode, i). i_blocks osfs_inode - i)") auto

declare unlink_loop.simps [simp del]

text \<open>
  The inode of the dentry is dereferenced (line 196) before it is tested (line 200), so
  the function is modelled for an inode that exists. The calls into the VFS (\<^verbatim>\<open>d_drop\<close>,
  \<^verbatim>\<open>clear_nlink\<close>, \<^verbatim>\<open>mark_inode_dirty\<close>) do not touch the pool or the osfs inode. The
  result is the return value, the pool and the inode.
\<close>

definition osfs_unlink :: "osfs_sb_info \<Rightarrow> osfs_inode \<Rightarrow> (int \<times> osfs_sb_info \<times> osfs_inode) option" where
  "osfs_unlink sb_info osfs_inode =
     (case unlink_loop sb_info osfs_inode 0 of
        None \<Rightarrow> None
      | Some (sb_info', osfs_inode') \<Rightarrow> Some (0, sb_info', osfs_inode'))"

section \<open>The extent list of a file and its release\<close>

text \<open>
  The extent list that the two arrays of an inode hold: the slots in front of the first
  unused one, as the first loop of \<^verbatim>\<open>osfs_realloc_multiple_data_blocks\<close> reads them.
\<close>

definition extents :: "osfs_inode \<Rightarrow> (nat \<times> int) list" where
  "extents ino = takeWhile (\<lambda>(s, n). n \<noteq> - 1) (zip (i_blocks_ptr ino) (i_blocks_length ino))"

text \<open>
  \<open>free_range\<close> and \<open>release\<close> in the words of sections 4.1 and 4.4 of the specification:
  \<open>free_range\<close> clears the bits of the blocks \<open>start\<close> to \<open>start + n - 1\<close> and adds \<open>n\<close> to
  the counter; \<open>release\<close> applies it to every extent of the list. The code has no function
  of either name: they are what \<^verbatim>\<open>osfs_unlink\<close> is compared with.
\<close>

definition spec_free_range :: "osfs_sb_info \<Rightarrow> nat \<Rightarrow> nat \<Rightarrow> osfs_sb_info" where
  "spec_free_range sb start n =
     sb\<lparr>block_bitmap := map (\<lambda>j. if start \<le> j \<and> j < start + n then False else block_bitmap sb ! j)
                           [0..<length (block_bitmap sb)],
        nr_free_blocks := nr_free_blocks sb + int n\<rparr>"

definition spec_release :: "osfs_sb_info \<Rightarrow> (nat \<times> int) list \<Rightarrow> osfs_sb_info" where
  "spec_release sb exts = fold (\<lambda>(s, n) sb'. spec_free_range sb' s (nat n)) exts sb"

text \<open>
  The arrays of a file as \<^verbatim>\<open>osfs_write\<close> leaves them: \<^verbatim>\<open>i_blocks\<close> slots each; every extent has
  a positive length and ends within the range of a \<^verbatim>\<open>uint32_t\<close>; the slots behind the
  extents are unused.
\<close>

definition file_wf :: "osfs_inode \<Rightarrow> bool" where
  "file_wf ino \<longleftrightarrow>
     length (i_blocks_ptr ino) = i_blocks ino \<and> length (i_blocks_length ino) = i_blocks ino \<and>
     list_all (\<lambda>(s, n). 0 < n \<and> s + nat n \<le> 2 ^ 32) (extents ino) \<and>
     list_all (\<lambda>(s, n). n = - 1)
       (dropWhile (\<lambda>(s, n). n \<noteq> - 1) (zip (i_blocks_ptr ino) (i_blocks_length ino)))"

text \<open>The inode with every slot marked unused, as the loop of \<^verbatim>\<open>osfs_unlink\<close> leaves it.\<close>

definition unlinked :: "osfs_inode \<Rightarrow> osfs_inode" where
  "unlinked ino = ino\<lparr>i_blocks_ptr := replicate (i_blocks ino) NO_BLOCK,
                      i_blocks_length := replicate (i_blocks ino) (- 1)\<rparr>"

section \<open>Sequences of operations on the pool\<close>

text \<open>
  The difference between the counter and the number of zero bits; it is 0 in a
  consistent pool.
\<close>

definition slack :: "osfs_sb_info \<Rightarrow> int" where
  "slack sb = nr_free_blocks sb - zero_bits (block_bitmap sb)"

text \<open>
  A call of one of the four operations of inode.c on the pool, with the arguments of the
  caller, and its effect on the pool (\<open>None\<close> when the call reads or writes outside the
  arrays it was given).
\<close>

datatype pool_op =
    Alloc_data_block
  | Alloc_multiple "nat list" "int list" int
  | Realloc_multiple "nat list" "int list" int
  | Free_data_block nat

fun apply_op :: "osfs_sb_info \<Rightarrow> pool_op \<Rightarrow> osfs_sb_info option" where
  "apply_op sb Alloc_data_block = Some (fst (snd (osfs_alloc_data_block sb)))"
| "apply_op sb (Alloc_multiple nos lens n) =
     (case osfs_alloc_multiple_data_blocks sb nos lens n of
        None \<Rightarrow> None
      | Some (rc, sb', nos', lens') \<Rightarrow> Some sb')"
| "apply_op sb (Realloc_multiple nos lens n) =
     (case osfs_realloc_multiple_data_blocks sb nos lens n of
        None \<Rightarrow> None
      | Some (rc, sb', nos', lens') \<Rightarrow> Some sb')"
| "apply_op sb (Free_data_block b) = Some (osfs_free_data_block sb b)"

fun run_ops :: "osfs_sb_info \<Rightarrow> pool_op list \<Rightarrow> osfs_sb_info option" where
  "run_ops sb [] = Some sb"
| "run_ops sb (p # ps) =
     (case apply_op sb p of None \<Rightarrow> None | Some sb' \<Rightarrow> run_ops sb' ps)"

text \<open>
  The calls for which the invariant of counter and bitmap is proved:
  \<^verbatim>\<open>osfs_free_data_block\<close> for a block of the pool that is allocated at the time of the
  call, \<^verbatim>\<open>osfs_alloc_data_block\<close> and \<^verbatim>\<open>osfs_realloc_multiple_data_blocks\<close>. \<open>guarded\<close>
  checks every call of a sequence in the state it is made in.
\<close>

fun op_guard :: "osfs_sb_info \<Rightarrow> pool_op \<Rightarrow> bool" where
  "op_guard sb (Free_data_block b) = (b < block_count sb \<and> test_bit b (block_bitmap sb))"
| "op_guard sb (Alloc_multiple nos lens n) = False"
| "op_guard sb Alloc_data_block = True"
| "op_guard sb (Realloc_multiple nos lens n) = True"

fun guarded :: "osfs_sb_info \<Rightarrow> pool_op list \<Rightarrow> bool" where
  "guarded sb [] = True"
| "guarded sb (p # ps) =
     (op_guard sb p \<and> (case apply_op sb p of None \<Rightarrow> True | Some sb' \<Rightarrow> guarded sb' ps))"

section \<open>Example states\<close>

text \<open>
  A pool of three blocks of four bytes each, in which block 1 belongs to another file and
  holds the bytes 9; and a file of eight bytes that owns the blocks 0 and 2 of that pool.
\<close>

definition frag_pool :: osfs_sb_info where
  "frag_pool = \<lparr>block_count = 3, nr_free_blocks = 2, block_bitmap = [False, True, False],
                 data_blocks = [0, 0, 0, 0, 9, 9, 9, 9, 0, 0, 0, 0]\<rparr>"

definition two_extent_file :: osfs_inode where
  "two_extent_file = \<lparr>i_size = 8, i_blocks = 2, i_blocks_ptr = [0, 2], i_blocks_length = [1, 1]\<rparr>"

definition empty_file :: osfs_inode where
  "empty_file = \<lparr>i_size = 0, i_blocks = 0, i_blocks_ptr = [], i_blocks_length = []\<rparr>"

text \<open>The example pool after eight bytes have been written to the file.\<close>

definition written_pool :: osfs_sb_info where
  "written_pool = \<lparr>block_count = 3, nr_free_blocks = 0, block_bitmap = [True, True, True],
                    data_blocks = [1, 2, 3, 4, 9, 9, 9, 9, 5, 6, 7, 8]\<rparr>"

text \<open>A pool in which one file owns the blocks 0 and 1 as one run, and block 2 is free.\<close>

definition full_file_pool :: osfs_sb_info where
  "full_file_pool = \<lparr>block_count = 3, nr_free_blocks = 1, block_bitmap = [True, True, False],
                      data_blocks = [1, 2, 3, 4, 5, 6, 7, 8, 0, 0, 0, 0]\<rparr>"

text \<open>The equations that evaluate the allocators on a concrete pool.\<close>

lemmas alloc_eval = realloc_scan.simps realloc_extend.simps count_loop.simps claim_first_def
  extend_step_def test_bit_def set_bit_def ENOSPC_def alloc_scan.simps alloc_extend.simps
  alloc_extend_step_def

section \<open>Freeing a block\<close>

lemma list_update_False_same:
  "b < length bm \<Longrightarrow> \<not> bm ! b \<Longrightarrow> bm[b := False] = bm"
  by (simp add: list_update_same_conv)

text \<open>
  C10: \<^verbatim>\<open>osfs_free_data_block\<close> clears the bit of the block and adds one to
  \<^verbatim>\<open>nr_free_blocks\<close>, whatever the bit was. When the block was already free in a consistent
  pool, the bitmap stays as it was and \<^verbatim>\<open>nr_free_blocks\<close> becomes larger than the number of
  zero bits.
\<close>

theorem free_data_block_unconditional:
  "block_bitmap (osfs_free_data_block sb b) = (block_bitmap sb)[b := False] \<and>
   nr_free_blocks (osfs_free_data_block sb b) = nr_free_blocks sb + 1 \<and>
   (consistent sb \<and> b < block_count sb \<and> \<not> test_bit b (block_bitmap sb) \<longrightarrow>
      block_bitmap (osfs_free_data_block sb b) = block_bitmap sb \<and>
      zero_bits (block_bitmap (osfs_free_data_block sb b)) < nr_free_blocks (osfs_free_data_block sb b))"
proof -
  have upd: "block_bitmap (osfs_free_data_block sb b) = (block_bitmap sb)[b := False]"
    by (simp add: osfs_free_data_block_def clear_bit_def)
  have cnt: "nr_free_blocks (osfs_free_data_block sb b) = nr_free_blocks sb + 1"
    by (simp add: osfs_free_data_block_def)
  have "block_bitmap (osfs_free_data_block sb b) = block_bitmap sb \<and>
        zero_bits (block_bitmap (osfs_free_data_block sb b)) < nr_free_blocks (osfs_free_data_block sb b)"
    if c: "consistent sb" and b: "b < block_count sb" and f: "\<not> test_bit b (block_bitmap sb)"
  proof -
    from c b have "b < length (block_bitmap sb)" by (simp add: consistent_def pool_wf_def)
    with f have same: "(block_bitmap sb)[b := False] = block_bitmap sb"
      by (simp add: test_bit_def list_update_False_same)
    from c have "nr_free_blocks sb = zero_bits (block_bitmap sb)" by (simp add: consistent_def)
    with same upd cnt show ?thesis by simp
  qed
  with upd cnt show ?thesis by blast
qed

text \<open>The theorem at block 2 of the example pool, which is free.\<close>

theorem free_data_block_unconditional_witness:
  "consistent frag_pool \<and> 2 < block_count frag_pool \<and> \<not> test_bit 2 (block_bitmap frag_pool) \<and>
   block_bitmap (osfs_free_data_block frag_pool 2) = [False, True, False] \<and>
   nr_free_blocks (osfs_free_data_block frag_pool 2) = 3 \<and>
   zero_bits (block_bitmap (osfs_free_data_block frag_pool 2)) = 2"
proof -
  have h: "consistent frag_pool \<and> 2 < block_count frag_pool \<and> \<not> test_bit 2 (block_bitmap frag_pool)"
    by (simp add: frag_pool_def consistent_def pool_wf_def zero_bits_def test_bit_def)
  from free_data_block_unconditional [of frag_pool 2] h
  have "block_bitmap (osfs_free_data_block frag_pool 2) = block_bitmap frag_pool"
    and "nr_free_blocks (osfs_free_data_block frag_pool 2) = nr_free_blocks frag_pool + 1"
    by blast+
  with h show ?thesis by (simp add: frag_pool_def zero_bits_def)
qed

section \<open>Translating a logical block index\<close>

lemma translate_loop_gen:
  assumes "\<forall>x\<in>set ls. 0 < x" and "0 \<le> idx" and "idx < sum_list (drop k ls)"
  shows "\<exists>e b. translate_loop (ls @ rest) idx k = Some (e, b) \<and> e < length ls \<and>
           sum_list (take e ls) + b = sum_list (take k ls) + idx \<and> 0 \<le> b \<and> b < ls ! e"
  using assms
proof (induction "length ls - k" arbitrary: idx k)
  case 0
  then show ?case by simp
next
  case (Suc n)
  from Suc.prems(3) Suc.prems(2) have k: "k < length ls"
    by (cases "k < length ls") auto
  have pos: "0 < ls ! k" using k Suc.prems(1) by simp
  have dr: "sum_list (drop k ls) = ls ! k + sum_list (drop (Suc k) ls)"
    using k by (simp add: Cons_nth_drop_Suc [symmetric])
  have tk: "sum_list (take (Suc k) ls) = sum_list (take k ls) + ls ! k"
    using k by (simp add: take_Suc_conv_app_nth)
  show ?case
  proof (cases "0 < idx \<and> ls ! k \<le> idx")
    case True
    have "n = length ls - Suc k" using Suc.hyps(2) by simp
    moreover have "0 \<le> idx - ls ! k" using True by simp
    moreover have "idx - ls ! k < sum_list (drop (Suc k) ls)"
      using Suc.prems(3) dr by simp
    ultimately obtain e b where
      eb: "translate_loop (ls @ rest) (idx - ls ! k) (Suc k) = Some (e, b)" "e < length ls"
          "sum_list (take e ls) + b = sum_list (take (Suc k) ls) + (idx - ls ! k)"
          "0 \<le> b" "b < ls ! e"
      using Suc.hyps(1) [of "Suc k" "idx - ls ! k"] Suc.prems(1) by blast
    have "translate_loop (ls @ rest) idx k = translate_loop (ls @ rest) (idx - ls ! k) (Suc k)"
      using True k by (subst translate_loop.simps) (simp add: nth_append)
    with eb tk show ?thesis by simp
  next
    case False
    then have "translate_loop (ls @ rest) idx k = Some (k, idx)"
      using k by (subst translate_loop.simps) (auto simp: nth_append)
    moreover have "idx < ls ! k" using False pos Suc.prems(2) by auto
    ultimately show ?thesis using k Suc.prems(2) by simp
  qed
qed

text \<open>
  C7, the example as the claim states it: in the list of lengths \<open>[3, 2]\<close> the logical block
  index 4 does not resolve to local index 0; the loop yields extent 1 and local index 1.
\<close>

theorem translate_loop_example_counterexample:
  "translate_loop [3, 2] 4 0 = Some (1, 1) \<and> translate_loop [3, 2] 4 0 \<noteq> Some (1, 0)"
  by (simp add: translate_loop.simps)

text \<open>
  C7, amended: for lengths \<open>ls\<close> that are all positive (followed by any further slots
  \<open>rest\<close>) and a logical block index below their sum, the translation loop yields an
  extent \<open>e\<close> and a local index \<open>b\<close> with: the lengths in front of \<open>e\<close> plus \<open>b\<close> are the
  index, \<open>0 \<le> b < ls ! e\<close>, and the address computed from them is that of block
  \<open>starts ! e + b\<close>. In the list \<open>[{0,3},{4,2}]\<close> index 4 resolves to extent 1, local index 1,
  block 5, and index 3 resolves to extent 1, local index 0, block 4.
\<close>

theorem translate_loop_correct:
  "(\<forall>ls starts rest rest' idx bs off.
      (\<forall>x\<in>set ls. 0 < x) \<and> length starts = length ls \<and> 0 \<le> idx \<and> idx < sum_list ls \<longrightarrow>
      (\<exists>e b. translate_loop (ls @ rest) idx 0 = Some (e, b) \<and> e < length ls \<and>
              sum_list (take e ls) + b = idx \<and> 0 \<le> b \<and> b < ls ! e \<and>
              data_block_offset bs (starts @ rest') e b off
                = (int (starts ! e) + b) * int bs + int off)) \<and>
   translate_loop [3, 2] 4 0 = Some (1, 1) \<and> data_block_offset bs [0, 4] 1 1 0 = 5 * int bs \<and>
   translate_loop [3, 2] 3 0 = Some (1, 0) \<and> data_block_offset bs [0, 4] 1 0 0 = 4 * int bs"
proof -
  have gen: "\<exists>e b. translate_loop (ls @ rest) idx 0 = Some (e, b) \<and> e < length ls \<and>
              sum_list (take e ls) + b = idx \<and> 0 \<le> b \<and> b < ls ! e \<and>
              data_block_offset bs (starts @ rest') e b off
                = (int (starts ! e) + b) * int bs + int off"
    if "\<forall>x\<in>set ls. 0 < x" "length starts = length ls" "0 \<le> idx" "idx < sum_list ls"
    for ls :: "int list" and starts rest rest' idx bs off
  proof -
    from translate_loop_gen [of ls idx 0 rest] that
    obtain e b where eb: "translate_loop (ls @ rest) idx 0 = Some (e, b)" "e < length ls"
      "sum_list (take e ls) + b = idx" "0 \<le> b" "b < ls ! e"
      by auto
    from eb(2) that(2) have "data_block_offset bs (starts @ rest') e b off
                = (int (starts ! e) + b) * int bs + int off"
      by (simp add: data_block_offset_def nth_append algebra_simps)
    with eb show ?thesis by blast
  qed
  have ex: "translate_loop [3, 2] 4 0 = Some (1, 1) \<and> data_block_offset bs [0, 4] 1 1 0 = 5 * int bs \<and>
   translate_loop [3, 2] 3 0 = Some (1, 0) \<and> data_block_offset bs [0, 4] 1 0 0 = 4 * int bs"
    by (simp add: translate_loop.simps data_block_offset_def)
  from gen ex show ?thesis by blast
qed

text \<open>The general part at the example list, followed by three unused slots.\<close>

theorem translate_loop_correct_witness:
  "length [0, 4 :: nat] = length [3, 2 :: int] \<and> (0::int) \<le> 4 \<and> (4::int) < sum_list [3, 2] \<and>
   (\<exists>e b. translate_loop ([3, 2] @ [- 1, - 1, - 1]) 4 0 = Some (e, b) \<and> e < length [3, 2 :: int] \<and>
           sum_list (take e [3, 2]) + b = 4 \<and> 0 \<le> b \<and> b < [3, 2] ! e \<and>
           data_block_offset 4 ([0, 4] @ [NO_BLOCK, NO_BLOCK, NO_BLOCK]) e b 0
             = (int ([0, 4] ! e) + b) * int 4 + int 0)"
proof -
  have h: "(\<forall>x\<in>set [3, 2 :: int]. 0 < x) \<and> length [0, 4 :: nat] = length [3, 2 :: int] \<and> (0::int) \<le> 4 \<and>
   (4::int) < sum_list [3, 2]"
    by simp
  from translate_loop_correct [of 4, THEN conjunct1, rule_format, OF h] h
  show ?thesis by blast
qed

section \<open>Reading\<close>

text \<open>
  A read below \<^verbatim>\<open>i_size\<close> does return: when the block of the position is covered by the
  positive lengths \<open>ls\<close> at the front of \<^verbatim>\<open>i_blocks_length\<close>, the bytes to copy lie in the
  block store and the buffer of the caller has room for them, \<^verbatim>\<open>osfs_read\<close> returns the
  clamped length, the bytes and the advanced position.
\<close>

lemma osfs_read_returns:
  assumes bs: "0 < bs" and blk: "i_blocks ino \<noteq> 0" and pos: "ppos < i_size ino"
    and arr: "i_blocks_length ino = ls @ rest" and lens: "\<forall>x\<in>set ls. 0 < x"
    and ptr: "length ls \<le> length (i_blocks_ptr ino)"
    and cov: "int (ppos div bs) < sum_list ls"
    and room: "min len (i_size ino - ppos) \<le> length buf"
    and store: "\<forall>e<length ls. \<forall>b. 0 \<le> b \<and> b < ls ! e \<and>
                  sum_list (take e ls) + b = int (ppos div bs) \<longrightarrow>
                  nat (data_block_offset bs (i_blocks_ptr ino) e b (ppos mod bs))
                    + min len (i_size ino - ppos) \<le> length (data_blocks sb)"
  shows "\<exists>e b. e < length ls \<and> 0 \<le> b \<and> b < ls ! e \<and>
           sum_list (take e ls) + b = int (ppos div bs) \<and>
           osfs_read bs sb ino buf len ppos
             = Some (int (min len (i_size ino - ppos)),
                     take (min len (i_size ino - ppos))
                       (drop (nat (data_block_offset bs (i_blocks_ptr ino) e b (ppos mod bs)))
                          (data_blocks sb))
                     @ drop (min len (i_size ino - ppos)) buf,
                     ppos + min len (i_size ino - ppos))"
proof -
  define n where "n = min len (i_size ino - ppos)"
  have m: "(if i_size ino < ppos + len then i_size ino - ppos else len) = n"
    using pos by (auto simp: n_def min_def)
  have "0 \<le> int (ppos div bs)" by simp
  moreover from cov have "int (ppos div bs) < sum_list (drop 0 ls)" by simp
  ultimately obtain e b where
    t: "translate_loop (ls @ rest) (int (ppos div bs)) 0 = Some (e, b)" and e: "e < length ls"
    and s: "sum_list (take e ls) + b = sum_list (take 0 ls) + int (ppos div bs)"
    and b: "0 \<le> b" "b < ls ! e"
    using translate_loop_gen [OF lens, of "int (ppos div bs)" 0 rest] by blast
  from s have s': "sum_list (take e ls) + b = int (ppos div bs)" by simp
  define off where "off = nat (data_block_offset bs (i_blocks_ptr ino) e b (ppos mod bs))"
  from store e b s' have st: "off + n \<le> length (data_blocks sb)"
    unfolding off_def n_def by blast
  from room have rm: "n \<le> length buf" by (simp add: n_def)
  from e ptr have ep: "\<not> length (i_blocks_ptr ino) \<le> e" by simp
  from rm have mn: "min n (length buf) = n" by simp
  have "osfs_read bs sb ino buf len ppos
          = Some (int n, take n (drop off (data_blocks sb)) @ drop n buf, ppos + n)"
    using bs blk pos t ep st rm
    by (simp add: osfs_read_def arr Let_def m mn off_def [symmetric])
  with e b s' show ?thesis unfolding n_def off_def by blast
qed

text \<open>
  C8: \<^verbatim>\<open>osfs_read\<close> returns 0 and leaves the position when the file owns no block or the
  position is at or past \<^verbatim>\<open>i_size\<close>. Otherwise a read that succeeds (its return value is
  not negative) returns \<open>min len (i_size - ppos)\<close> and advances the position by that
  amount; the buffer keeps its length. And the read does succeed with that count, a
  count below \<open>len\<close> when fewer bytes are left: for a position whose block is covered by
  the extents of the file, bytes that lie in the block store and a buffer with room for
  \<open>min len (i_size - ppos)\<close> bytes, \<^verbatim>\<open>osfs_read\<close> returns \<open>min len (i_size - ppos)\<close>, copies
  that many bytes from the translated address to the front of the buffer, and advances
  the position by that amount.
\<close>

theorem osfs_read_count:
  "(i_blocks ino = 0 \<or> i_size ino \<le> ppos \<longrightarrow>
      osfs_read bs sb ino buf len ppos = Some (0, buf, ppos)) \<and>
   (i_blocks ino \<noteq> 0 \<and> ppos < i_size ino \<and>
    osfs_read bs sb ino buf len ppos = Some (rc, buf', ppos') \<and> 0 \<le> rc \<longrightarrow>
      rc = int (min len (i_size ino - ppos)) \<and> ppos' = ppos + min len (i_size ino - ppos) \<and>
      length buf' = length buf) \<and>
   (0 < bs \<and> i_blocks ino \<noteq> 0 \<and> ppos < i_size ino \<and>
    i_blocks_length ino = ls @ rest \<and> (\<forall>x\<in>set ls. 0 < x) \<and>
    length ls \<le> length (i_blocks_ptr ino) \<and> int (ppos div bs) < sum_list ls \<and>
    min len (i_size ino - ppos) \<le> length buf \<and>
    (\<forall>e<length ls. \<forall>b. 0 \<le> b \<and> b < ls ! e \<and> sum_list (take e ls) + b = int (ppos div bs) \<longrightarrow>
       nat (data_block_offset bs (i_blocks_ptr ino) e b (ppos mod bs))
         + min len (i_size ino - ppos) \<le> length (data_blocks sb)) \<longrightarrow>
      (\<exists>e b. e < length ls \<and> 0 \<le> b \<and> b < ls ! e \<and>
          sum_list (take e ls) + b = int (ppos div bs) \<and>
          osfs_read bs sb ino buf len ppos
            = Some (int (min len (i_size ino - ppos)),
                    take (min len (i_size ino - ppos))
                      (drop (nat (data_block_offset bs (i_blocks_ptr ino) e b (ppos mod bs)))
                         (data_blocks sb))
                    @ drop (min len (i_size ino - ppos)) buf,
                    ppos + min len (i_size ino - ppos))))"
proof -
  have a: "osfs_read bs sb ino buf len ppos = Some (0, buf, ppos)"
    if "i_blocks ino = 0 \<or> i_size ino \<le> ppos"
    using that by (auto simp: osfs_read_def)
  have b: "rc = int (min len (i_size ino - ppos)) \<and> ppos' = ppos + min len (i_size ino - ppos) \<and>
      length buf' = length buf"
    if h: "i_blocks ino \<noteq> 0" "ppos < i_size ino"
       "osfs_read bs sb ino buf len ppos = Some (rc, buf', ppos')" "0 \<le> rc"
  proof -
    define len' where "len' = (if i_size ino < ppos + len then i_size ino - ppos else len)"
    have m: "len' = min len (i_size ino - ppos)"
      using h(2) by (auto simp: len'_def min_def)
    from h(1,2,3) obtain e b where
      t: "translate_loop (i_blocks_length ino) (int (ppos div bs)) 0 = Some (e, b)"
      and bs: "bs \<noteq> 0"
      by (auto simp: osfs_read_def split: if_splits option.splits)
    define off where "off = nat (data_block_offset bs (i_blocks_ptr ino) e b (ppos mod bs))"
    from h(1,2) bs t have r: "osfs_read bs sb ino buf len ppos =
       (if length (i_blocks_ptr ino) \<le> e then None
        else if length (data_blocks sb) < off + min len' (length buf) then None
        else if length buf < len'
        then Some (- EFAULT, take (min len' (length buf)) (drop off (data_blocks sb)), ppos)
        else Some (int len', take len' (drop off (data_blocks sb)) @ drop len' buf, ppos + len'))"
      by (simp add: osfs_read_def Let_def len'_def off_def)
    have neg: "- EFAULT < 0" by (simp add: EFAULT_def)
    from h(3,4) r neg have ok: "\<not> length (data_blocks sb) < off + min len' (length buf)"
      "\<not> length buf < len'" "rc = int len'" "ppos' = ppos + len'"
      "buf' = take len' (drop off (data_blocks sb)) @ drop len' buf"
      by (auto split: if_splits)
    from ok(1,2) have "length buf' = length buf"
      unfolding ok(5) by (auto simp: min_def)
    with ok m show ?thesis by simp
  qed
  have c: "\<exists>e b. e < length ls \<and> 0 \<le> b \<and> b < ls ! e \<and>
          sum_list (take e ls) + b = int (ppos div bs) \<and>
          osfs_read bs sb ino buf len ppos
            = Some (int (min len (i_size ino - ppos)),
                    take (min len (i_size ino - ppos))
                      (drop (nat (data_block_offset bs (i_blocks_ptr ino) e b (ppos mod bs)))
                         (data_blocks sb))
                    @ drop (min len (i_size ino - ppos)) buf,
                    ppos + min len (i_size ino - ppos))"
    if "0 < bs" "i_blocks ino \<noteq> 0" "ppos < i_size ino"
       "i_blocks_length ino = ls @ rest" "\<forall>x\<in>set ls. 0 < x"
       "length ls \<le> length (i_blocks_ptr ino)" "int (ppos div bs) < sum_list ls"
       "min len (i_size ino - ppos) \<le> length buf"
       "\<forall>e<length ls. \<forall>b. 0 \<le> b \<and> b < ls ! e \<and> sum_list (take e ls) + b = int (ppos div bs) \<longrightarrow>
          nat (data_block_offset bs (i_blocks_ptr ino) e b (ppos mod bs))
            + min len (i_size ino - ppos) \<le> length (data_blocks sb)"
    using that by (rule osfs_read_returns)
  from a b c show ?thesis by blast
qed

text \<open>
  The theorem at the example file: three bytes read at position 1; five bytes asked for
  at position 6, where two are left, so that the read returns 2 and the bytes 7 and 8; a
  read at the end of the file, and a read of the empty file.
\<close>

theorem osfs_read_count_witness:
  "i_blocks two_extent_file \<noteq> 0 \<and> 1 < i_size two_extent_file \<and>
   osfs_read 4 written_pool two_extent_file [0, 0, 0] 3 1 = Some (3, [2, 3, 4], 4) \<and>
   (3::int) = int (min 3 (i_size two_extent_file - 1)) \<and>
   osfs_read 4 written_pool two_extent_file [0, 0, 0, 0, 0] 5 6 = Some (2, [7, 8, 0, 0, 0], 8) \<and>
   (2::int) = int (min 5 (i_size two_extent_file - 6)) \<and>
   osfs_read 4 written_pool two_extent_file [0, 0, 0] 3 8 = Some (0, [0, 0, 0], 8) \<and>
   osfs_read 4 written_pool empty_file [0, 0, 0] 3 0 = Some (0, [0, 0, 0], 0)"
proof -
  have h1: "i_blocks two_extent_file \<noteq> 0 \<and> 1 < i_size two_extent_file"
    by (simp add: two_extent_file_def)
  have h2: "osfs_read 4 written_pool two_extent_file [0, 0, 0] 3 1 = Some (3, [2, 3, 4], 4)"
    by code_simp
  have h0: "i_blocks two_extent_file \<noteq> 0 \<and> 1 < i_size two_extent_file \<and>
     osfs_read 4 written_pool two_extent_file [0, 0, 0] 3 1 = Some (3, [2, 3, 4], 4) \<and> (0::int) \<le> 3"
    using h1 h2 by simp
  have e1: "i_blocks two_extent_file = 0 \<or> i_size two_extent_file \<le> 8"
    by (simp add: two_extent_file_def)
  have e2: "i_blocks empty_file = 0 \<or> i_size empty_file \<le> 0"
    by (simp add: empty_file_def)
  have c1: "(3::int) = int (min 3 (i_size two_extent_file - 1))"
    using osfs_read_count [of two_extent_file 1 4 written_pool "[0, 0, 0]" 3 3 "[2, 3, 4]" 4,
            THEN conjunct2, THEN conjunct1, rule_format, OF h0]
    by blast
  have c2: "osfs_read 4 written_pool two_extent_file [0, 0, 0] 3 8 = Some (0, [0, 0, 0], 8)"
    by (rule osfs_read_count [THEN conjunct1, rule_format, OF e1])
  have c3: "osfs_read 4 written_pool empty_file [0, 0, 0] 3 0 = Some (0, [0, 0, 0], 0)"
    by (rule osfs_read_count [THEN conjunct1, rule_format, OF e2])
  have ino: "i_blocks two_extent_file = 2" "i_size two_extent_file = 8"
    "i_blocks_ptr two_extent_file = [0, 2]" "i_blocks_length two_extent_file = [1, 1] @ []"
    by (simp_all add: two_extent_file_def)
  have dat: "data_blocks written_pool = [1, 2, 3, 4, 9, 9, 9, 9, 5, 6, 7, 8]"
    by (simp add: written_pool_def)
  have st: "\<forall>e<length [1, 1 :: int]. \<forall>b. 0 \<le> b \<and> b < [1, 1] ! e \<and>
              sum_list (take e [1, 1]) + b = int (6 div 4) \<longrightarrow>
              nat (data_block_offset 4 (i_blocks_ptr two_extent_file) e b (6 mod 4))
                + min 5 (i_size two_extent_file - 6) \<le> length (data_blocks written_pool)"
    by (auto simp: ino dat data_block_offset_def less_Suc_eq numeral_2_eq_2)
  have h: "0 < (4::nat) \<and> i_blocks two_extent_file \<noteq> 0 \<and> 6 < i_size two_extent_file \<and>
    i_blocks_length two_extent_file = [1, 1] @ [] \<and> (\<forall>x\<in>set [1, 1 :: int]. 0 < x) \<and>
    length [1, 1 :: int] \<le> length (i_blocks_ptr two_extent_file) \<and>
    int (6 div 4) < sum_list [1, 1] \<and>
    min 5 (i_size two_extent_file - 6) \<le> length [0, 0, 0, 0, 0 :: nat] \<and>
    (\<forall>e<length [1, 1 :: int]. \<forall>b. 0 \<le> b \<and> b < [1, 1] ! e \<and>
              sum_list (take e [1, 1]) + b = int (6 div 4) \<longrightarrow>
              nat (data_block_offset 4 (i_blocks_ptr two_extent_file) e b (6 mod 4))
                + min 5 (i_size two_extent_file - 6) \<le> length (data_blocks written_pool))"
    using st by (simp add: ino)
  from osfs_read_count [of two_extent_file 6 4 written_pool "[0, 0, 0, 0, 0]" 5 _ _ _ "[1, 1]" "[]",
         THEN conjunct2, THEN conjunct2, rule_format, OF h]
  obtain e b where e: "e < length [1, 1 :: int]" and b: "0 \<le> b" "b < [1, 1 :: int] ! e"
    and s: "sum_list (take e [1, 1 :: int]) + b = int (6 div 4)"
    and r: "osfs_read 4 written_pool two_extent_file [0, 0, 0, 0, 0] 5 6
            = Some (int (min 5 (i_size two_extent_file - 6)),
                    take (min 5 (i_size two_extent_file - 6))
                      (drop (nat (data_block_offset 4 (i_blocks_ptr two_extent_file) e b (6 mod 4)))
                         (data_blocks written_pool))
                    @ drop (min 5 (i_size two_extent_file - 6)) [0, 0, 0, 0, 0],
                    6 + min 5 (i_size two_extent_file - 6))"
    by blast
  from e b s have "e = 1 \<and> b = 0"
    by (cases e) (auto simp: less_Suc_eq)
  with r have c4: "osfs_read 4 written_pool two_extent_file [0, 0, 0, 0, 0] 5 6
                     = Some (2, [7, 8, 0, 0, 0], 8) \<and>
                   (2::int) = int (min 5 (i_size two_extent_file - 6))"
    by (simp add: ino dat data_block_offset_def)
  from h1 h2 c1 c2 c3 c4 show ?thesis by blast
qed

section \<open>Writing\<close>

lemma write_loop_pool:
  "write_loop bs sb ino buf len ppos = Some (rc, sb', ppos') \<Longrightarrow>
     block_bitmap sb' = block_bitmap sb \<and> nr_free_blocks sb' = nr_free_blocks sb \<and>
     block_count sb' = block_count sb"
proof (induction bs sb ino buf len ppos arbitrary: rc sb' ppos' rule: write_loop.induct)
  case (1 bs sb ino buf len ppos)
  show ?case
  proof (cases "0 < len")
    case False
    with "1.prems" show ?thesis by (subst (asm) write_loop.simps) simp
  next
    case True
    with "1.prems" have bs: "bs \<noteq> 0"
      by (subst (asm) write_loop.simps) (simp split: if_splits)
    from True bs "1.prems" obtain e b where
      t: "translate_loop (i_blocks_length ino) (int (ppos div bs)) 0 = Some (e, b)"
      by (subst (asm) write_loop.simps) (auto split: option.splits)
    define off where "off = nat (data_block_offset bs (i_blocks_ptr ino) e b (ppos mod bs))"
    define wl where "wl = write_len bs len ppos"
    from True bs t "1.prems" have r: "\<not> length (i_blocks_ptr ino) \<le> e"
      "\<not> length (data_blocks sb) < off + wl"
      by (subst (asm) write_loop.simps; simp add: off_def wl_def split: if_splits)+
    show ?thesis
    proof (cases "length buf < wl")
      case True
      with \<open>0 < len\<close> bs t r "1.prems" show ?thesis
        by (subst (asm) write_loop.simps) (auto simp: off_def wl_def)
    next
      case False
      with \<open>0 < len\<close> bs t r "1.prems"
      have "write_loop bs (sb\<lparr>data_blocks := store_bytes off (take wl buf) (data_blocks sb)\<rparr>)
              ino (drop wl buf) (len - wl) (ppos + wl) = Some (rc, sb', ppos')"
        by (subst (asm) write_loop.simps) (simp add: off_def wl_def)
      from "1.IH" [OF \<open>0 < len\<close> bs t refl] r False this
      show ?thesis by (simp add: off_def wl_def)
    qed
  qed
qed

text \<open>
  C5, as the claim states it: the example file has eight bytes; a write of two bytes at
  position 0 succeeds and leaves \<^verbatim>\<open>i_size\<close> = 2, which is not the maximum of 8 and 0 + 2.
\<close>

theorem osfs_write_shrinks_counterexample:
  "osfs_write 4 written_pool two_extent_file [7, 7] 2 0
     = Some (2, written_pool\<lparr>data_blocks := [7, 7, 3, 4, 9, 9, 9, 9, 5, 6, 7, 8]\<rparr>,
             two_extent_file\<lparr>i_size := 2\<rparr>, 2) \<and>
   i_size two_extent_file = 8 \<and> max (i_size two_extent_file) (0 + 2) \<noteq> 2"
  by code_simp

text \<open>
  C5, amended: a write that succeeds returns \<open>len\<close> and sets \<^verbatim>\<open>i_size\<close> to \<open>ppos + len\<close>
  (line 138), whatever the size was before: the size grows when the write ends past the
  old size and shrinks when it ends in front of it.
\<close>

theorem osfs_write_sets_size:
  "osfs_write bs sb ino buf len ppos = Some (rc, sb', ino', ppos') \<and> 0 \<le> rc \<longrightarrow>
     rc = int len \<and> i_size ino' = ppos + len"
  by (auto simp: osfs_write_def write_copy_def ENOSPC_def
           split: if_splits option.splits prod.splits)

text \<open>The theorem at the write of two bytes into the example file.\<close>

theorem osfs_write_sets_size_witness:
  "osfs_write 4 written_pool two_extent_file [7, 7] 2 0
     = Some (2, written_pool\<lparr>data_blocks := [7, 7, 3, 4, 9, 9, 9, 9, 5, 6, 7, 8]\<rparr>,
             two_extent_file\<lparr>i_size := 2\<rparr>, 2) \<and>
   i_size (two_extent_file\<lparr>i_size := 2\<rparr>) = 0 + 2"
proof -
  have h: "osfs_write 4 written_pool two_extent_file [7, 7] 2 0
     = Some (2, written_pool\<lparr>data_blocks := [7, 7, 3, 4, 9, 9, 9, 9, 5, 6, 7, 8]\<rparr>,
             two_extent_file\<lparr>i_size := 2\<rparr>, 2)"
    by code_simp
  from osfs_write_sets_size [of 4 written_pool two_extent_file "[7, 7]" 2 0 2
        "written_pool\<lparr>data_blocks := [7, 7, 3, 4, 9, 9, 9, 9, 5, 6, 7, 8]\<rparr>"
        "two_extent_file\<lparr>i_size := 2\<rparr>" 2] h
  show ?thesis by simp
qed

section \<open>Growth when the file is large enough\<close>

text \<open>
  C9, as the claim states it: the lengths of the list \<open>[2, -1]\<close> sum up to the 2 blocks
  asked for, and \<^verbatim>\<open>osfs_realloc_multiple_data_blocks\<close> still claims the free block 2 as a
  second run, lowers the counter and returns \<open>- ENOSPC\<close>.
\<close>

theorem realloc_sufficient_counterexample:
  "osfs_realloc_multiple_data_blocks full_file_pool [0, NO_BLOCK] [2, - 1] 2
     = Some (- ENOSPC, full_file_pool\<lparr>nr_free_blocks := 0, block_bitmap := [True, True, True]\<rparr>,
             [0, 2], [2, 1]) \<and>
   sum_list [2 :: int] \<ge> 2 \<and> block_bitmap full_file_pool \<noteq> [True, True, True]"
  by (simp add: osfs_realloc_multiple_data_blocks_def full_file_pool_def alloc_eval)

text \<open>
  C9, amended: the test for a file that is large enough is the one of \<^verbatim>\<open>osfs_write\<close>
  (line 98). When \<^verbatim>\<open>i_blocks\<close> is at least the number of blocks needed, \<^verbatim>\<open>osfs_write\<close> does
  not call \<^verbatim>\<open>osfs_realloc_multiple_data_blocks\<close>, and whatever it returns, the two arrays
  of the inode, \<^verbatim>\<open>i_blocks\<close>, the bitmap and \<^verbatim>\<open>nr_free_blocks\<close> are as before the call.
\<close>

theorem osfs_write_no_growth:
  "blocks_needed bs ppos len \<le> int (i_blocks ino) \<and>
   osfs_write bs sb ino buf len ppos = Some (rc, sb', ino', ppos') \<longrightarrow>
     block_bitmap sb' = block_bitmap sb \<and> nr_free_blocks sb' = nr_free_blocks sb \<and>
     i_blocks_ptr ino' = i_blocks_ptr ino \<and> i_blocks_length ino' = i_blocks_length ino \<and>
     i_blocks ino' = i_blocks ino"
  by (auto simp: osfs_write_def write_copy_def split: if_splits option.splits prod.splits
           dest: write_loop_pool)

text \<open>The theorem at the write of two bytes into the example file, which owns two blocks.\<close>

theorem osfs_write_no_growth_witness:
  "blocks_needed 4 0 2 \<le> int (i_blocks two_extent_file) \<and>
   osfs_write 4 written_pool two_extent_file [7, 7] 2 0
     = Some (2, written_pool\<lparr>data_blocks := [7, 7, 3, 4, 9, 9, 9, 9, 5, 6, 7, 8]\<rparr>,
             two_extent_file\<lparr>i_size := 2\<rparr>, 2) \<and>
   block_bitmap (written_pool\<lparr>data_blocks := [7, 7, 3, 4, 9, 9, 9, 9, 5, 6, 7, 8]\<rparr>)
     = block_bitmap written_pool \<and>
   i_blocks_length (two_extent_file\<lparr>i_size := 2\<rparr>) = i_blocks_length two_extent_file"
proof -
  have h: "blocks_needed 4 0 2 \<le> int (i_blocks two_extent_file) \<and>
   osfs_write 4 written_pool two_extent_file [7, 7] 2 0
     = Some (2, written_pool\<lparr>data_blocks := [7, 7, 3, 4, 9, 9, 9, 9, 5, 6, 7, 8]\<rparr>,
             two_extent_file\<lparr>i_size := 2\<rparr>, 2)"
    by code_simp
  from osfs_write_no_growth [of 4 0 2 two_extent_file written_pool "[7, 7]", rule_format, OF h] h
  show ?thesis by blast
qed

section \<open>The two allocators of runs\<close>

text \<open>
  C4, at the example pool, where block 0 is free, block 1 belongs to another file and
  block 2 is free: asked for two blocks, \<^verbatim>\<open>osfs_alloc_multiple_data_blocks\<close> claims block 0,
  then counts block 1, whose bit is set, as the second block of the run (the test of line
  138 has no negation), lowers \<^verbatim>\<open>nr_free_blocks\<close> by 2 and returns 0; the free block 2 is
  not taken. On the same input \<^verbatim>\<open>osfs_realloc_multiple_data_blocks\<close> (line 183, with the
  negation) claims the free blocks 0 and 2 as two runs of length 1.
\<close>

theorem alloc_multiple_claims_allocated_block:
  "osfs_alloc_multiple_data_blocks frag_pool [NO_BLOCK, NO_BLOCK] [- 1, - 1] 2
     = Some (0, frag_pool\<lparr>nr_free_blocks := 0, block_bitmap := [True, True, False]\<rparr>,
             [0, NO_BLOCK], [1, 0]) \<and>
   block_bitmap frag_pool = [False, True, False] \<and> nr_free_blocks frag_pool = 2 \<and>
   osfs_realloc_multiple_data_blocks frag_pool [NO_BLOCK, NO_BLOCK] [- 1, - 1] 2
     = Some (0, frag_pool\<lparr>nr_free_blocks := 0, block_bitmap := [True, True, True]\<rparr>,
             [0, 2], [1, 1])"
  by (simp add: osfs_alloc_multiple_data_blocks_def osfs_realloc_multiple_data_blocks_def
        frag_pool_def alloc_eval)

section \<open>Writing to an empty file and reading back\<close>

lemma grow_arrays_empty_file:
  "grow_arrays empty_file 2
     = empty_file\<lparr>i_blocks_ptr := [NO_BLOCK, NO_BLOCK], i_blocks_length := [- 1, - 1]\<rparr>"
  by (simp add: grow_arrays_def empty_file_def fill_slots_def upt_rec numeral_2_eq_2)

lemma realloc_frag_pool:
  "osfs_realloc_multiple_data_blocks frag_pool [NO_BLOCK, NO_BLOCK] [- 1, - 1] 2
     = Some (0, frag_pool\<lparr>nr_free_blocks := 0, block_bitmap := [True, True, True]\<rparr>,
             [0, 2], [1, 1])"
  by (simp add: osfs_realloc_multiple_data_blocks_def frag_pool_def alloc_eval)

lemma write_copy_frag_pool:
  "write_copy 4 (frag_pool\<lparr>nr_free_blocks := 0, block_bitmap := [True, True, True]\<rparr>)
     (empty_file\<lparr>i_blocks_ptr := [0, 2], i_blocks_length := [1, 1], i_blocks := 2\<rparr>)
     [1, 2, 3, 4, 5, 6, 7, 8] 8 0
   = Some (8, written_pool, two_extent_file, 8)"
  by code_simp

text \<open>
  C1, at the example pool: eight bytes written at position 0 of the empty file go to the
  blocks 0 and 2, since \<^verbatim>\<open>osfs_write\<close> translates the position for every block. Reading
  the eight bytes back, \<^verbatim>\<open>osfs_read\<close> translates the position once and copies eight
  bytes from there on: it returns the four bytes of block 0 followed by the four bytes of
  block 1, which belongs to another file.
\<close>

theorem write_read_fragmented:
  "osfs_write 4 frag_pool empty_file [1, 2, 3, 4, 5, 6, 7, 8] 8 0
     = Some (8, written_pool, two_extent_file, 8) \<and>
   osfs_read 4 written_pool two_extent_file [0, 0, 0, 0, 0, 0, 0, 0] 8 0
     = Some (8, [1, 2, 3, 4, 9, 9, 9, 9], 8)"
proof -
  have bn: "blocks_needed 4 0 8 = 2" by (simp add: blocks_needed_def)
  have e: "i_blocks empty_file = 0" "i_blocks_ptr (empty_file\<lparr>i_blocks_ptr := [NO_BLOCK, NO_BLOCK], i_blocks_length := [- 1, - 1]\<rparr>) = [NO_BLOCK, NO_BLOCK]"
    "i_blocks_length (empty_file\<lparr>i_blocks_ptr := [NO_BLOCK, NO_BLOCK], i_blocks_length := [- 1, - 1]\<rparr>) = [- 1, - 1]"
    by (simp_all add: empty_file_def)
  have w: "osfs_write 4 frag_pool empty_file [1, 2, 3, 4, 5, 6, 7, 8] 8 0
     = Some (8, written_pool, two_extent_file, 8)"
    by (simp add: osfs_write_def bn e grow_arrays_empty_file realloc_frag_pool
          write_copy_frag_pool del: One_nat_def)
  have r: "osfs_read 4 written_pool two_extent_file [0, 0, 0, 0, 0, 0, 0, 0] 8 0
     = Some (8, [1, 2, 3, 4, 9, 9, 9, 9], 8)"
    by code_simp
  from w r show ?thesis by simp
qed

section \<open>Releasing the blocks of a file\<close>

lemma spec_free_range_0: "spec_free_range sb s 0 = sb"
proof -
  have "map ((!) (block_bitmap sb)) [0..<length (block_bitmap sb)] = block_bitmap sb"
    by (rule map_nth)
  then show ?thesis by (simp add: spec_free_range_def)
qed

lemma spec_free_range_Suc:
  "osfs_free_data_block (spec_free_range sb s m) (s + m) = spec_free_range sb s (Suc m)"
proof -
  have bm: "(map (\<lambda>j. if s \<le> j \<and> j < s + m then False else block_bitmap sb ! j)
               [0..<length (block_bitmap sb)])[s + m := False]
          = map (\<lambda>j. if s \<le> j \<and> j < s + Suc m then False else block_bitmap sb ! j)
               [0..<length (block_bitmap sb)]"
  proof (rule nth_equalityI)
    show "length ((map (\<lambda>j. if s \<le> j \<and> j < s + m then False else block_bitmap sb ! j)
               [0..<length (block_bitmap sb)])[s + m := False])
          = length (map (\<lambda>j. if s \<le> j \<and> j < s + Suc m then False else block_bitmap sb ! j)
               [0..<length (block_bitmap sb)])"
      by simp
  next
    fix i
    assume "i < length ((map (\<lambda>j. if s \<le> j \<and> j < s + m then False else block_bitmap sb ! j)
               [0..<length (block_bitmap sb)])[s + m := False])"
    then have i: "i < length (block_bitmap sb)" by simp
    show "(map (\<lambda>j. if s \<le> j \<and> j < s + m then False else block_bitmap sb ! j)
               [0..<length (block_bitmap sb)])[s + m := False] ! i
          = map (\<lambda>j. if s \<le> j \<and> j < s + Suc m then False else block_bitmap sb ! j)
               [0..<length (block_bitmap sb)] ! i"
    proof (cases "i = s + m")
      case True
      with i show ?thesis by simp
    next
      case False
      with i have "(s \<le> i \<and> i < s + Suc m) = (s \<le> i \<and> i < s + m)" by auto
      with i False show ?thesis by (simp add: nth_list_update)
    qed
  qed
  have "block_bitmap (osfs_free_data_block (spec_free_range sb s m) (s + m))
          = block_bitmap (spec_free_range sb s (Suc m))"
    using bm by (simp add: osfs_free_data_block_def clear_bit_def spec_free_range_def)
  then show ?thesis
    by (simp add: osfs_free_data_block_def spec_free_range_def)
qed

lemma free_run_steps:
  "s + m \<le> 2 ^ 32 \<Longrightarrow>
   fold (\<lambda>j sb'. osfs_free_data_block sb' ((s + j) mod 2 ^ 32)) [0..<m] sb = spec_free_range sb s m"
proof (induction m)
  case 0
  show ?case by (simp only: upt_0 fold_simps spec_free_range_0)
next
  case (Suc m)
  let ?F = "\<lambda>j sb'. osfs_free_data_block sb' ((s + j) mod 2 ^ 32)"
  from Suc have ih: "fold ?F [0..<m] sb = spec_free_range sb s m"
    by simp
  from Suc.prems have md: "(s + m) mod 2 ^ 32 = s + m" by simp
  have "fold ?F [0..<Suc m] sb = ?F m (fold ?F [0..<m] sb)"
    by (simp only: upt_Suc_append [OF le0] fold_append fold_simps comp_apply)
  also have "\<dots> = osfs_free_data_block (spec_free_range sb s m) (s + m)"
    by (simp only: ih md)
  also have "\<dots> = spec_free_range sb s (Suc m)"
    by (rule spec_free_range_Suc)
  finally show ?case .
qed

lemma free_run_spec_free_range:
  "s + nat n \<le> 2 ^ 32 \<Longrightarrow> free_run sb s n = spec_free_range sb s (nat n)"
  unfolding free_run_def by (rule free_run_steps)

lemma free_run_unused: "free_run sb s (- 1) = sb"
  by (simp add: free_run_def)

lemma unlink_loop_result:
  assumes "length (i_blocks_ptr ino) = i_blocks ino" and "length (i_blocks_length ino) = i_blocks ino"
    and "i \<le> i_blocks ino"
  shows "unlink_loop sb ino i =
           Some (fold (\<lambda>(s, n) sb'. free_run sb' s n)
                   (drop i (zip (i_blocks_ptr ino) (i_blocks_length ino))) sb,
                 ino\<lparr>i_blocks_ptr := take i (i_blocks_ptr ino) @ replicate (i_blocks ino - i) NO_BLOCK,
                     i_blocks_length := take i (i_blocks_length ino) @ replicate (i_blocks ino - i) (- 1)\<rparr>)"
  using assms
proof (induction "i_blocks ino - i" arbitrary: sb ino i)
  case 0
  then have "i = i_blocks ino" by simp
  with 0 show ?case
    by (subst unlink_loop.simps) simp
next
  case (Suc k)
  let ?ptr = "i_blocks_ptr ino" and ?lens = "i_blocks_length ino"
  let ?ino' = "ino\<lparr>i_blocks_ptr := ?ptr[i := NO_BLOCK], i_blocks_length := ?lens[i := - 1]\<rparr>"
  from Suc have i: "i < i_blocks ino" by simp
  have step: "unlink_loop sb ino i = unlink_loop (free_run sb (?ptr ! i) (?lens ! i)) ?ino' (i + 1)"
    using i Suc.prems by (subst unlink_loop.simps) simp
  have "unlink_loop (free_run sb (?ptr ! i) (?lens ! i)) ?ino' (i + 1) =
          Some (fold (\<lambda>(s, n) sb'. free_run sb' s n)
                   (drop (i + 1) (zip (i_blocks_ptr ?ino') (i_blocks_length ?ino')))
                   (free_run sb (?ptr ! i) (?lens ! i)),
                 ?ino'\<lparr>i_blocks_ptr := take (i + 1) (i_blocks_ptr ?ino') @ replicate (i_blocks ?ino' - (i + 1)) NO_BLOCK,
                     i_blocks_length := take (i + 1) (i_blocks_length ?ino') @ replicate (i_blocks ?ino' - (i + 1)) (- 1)\<rparr>)"
    using Suc.hyps(2) Suc.prems i by (intro Suc.hyps(1)) simp_all
  moreover have "drop (i + 1) (zip (i_blocks_ptr ?ino') (i_blocks_length ?ino'))
                   = drop (i + 1) (zip ?ptr ?lens)"
    by (simp add: zip_update)
  moreover have "drop i (zip ?ptr ?lens) = (?ptr ! i, ?lens ! i) # drop (i + 1) (zip ?ptr ?lens)"
    using i Suc.prems Cons_nth_drop_Suc [of i "zip ?ptr ?lens"] by simp
  moreover have "take (i + 1) (?ptr[i := NO_BLOCK]) @ replicate (i_blocks ino - (i + 1)) NO_BLOCK
                   = take i ?ptr @ replicate (i_blocks ino - i) NO_BLOCK"
    using i Suc.prems
    by (simp add: take_Suc_conv_app_nth replicate_Suc [symmetric] Suc_diff_Suc del: replicate_Suc)
  moreover have "take (i + 1) (?lens[i := - 1]) @ replicate (i_blocks ino - (i + 1)) (- 1)
                   = take i ?lens @ replicate (i_blocks ino - i) (- 1)"
    using i Suc.prems
    by (simp add: take_Suc_conv_app_nth replicate_Suc [symmetric] Suc_diff_Suc del: replicate_Suc)
  ultimately show ?case
    using step by simp
qed


lemma fold_free_run_unused:
  "list_all (\<lambda>(s, n). n = - 1) zs \<Longrightarrow> fold (\<lambda>(s, n) sb'. free_run sb' s n) zs sb = sb"
  by (induction zs arbitrary: sb) (auto simp: free_run_unused)

lemma fold_free_run_extents:
  "list_all (\<lambda>(s, n). 0 < n \<and> s + nat n \<le> 2 ^ 32) zs \<Longrightarrow>
   fold (\<lambda>(s, n) sb'. free_run sb' s n) zs sb = spec_release sb zs"
proof (induction zs arbitrary: sb)
  case Nil
  show ?case by (simp add: spec_release_def)
next
  case (Cons z zs)
  obtain s n where z: "z = (s, n)" by (cases z)
  from Cons.prems z have "s + nat n \<le> 2 ^ 32" and rest: "list_all (\<lambda>(s, n). 0 < n \<and> s + nat n \<le> 2 ^ 32) zs"
    by simp_all
  then have "free_run sb s n = spec_free_range sb s (nat n)"
    by (simp only: free_run_spec_free_range)
  with Cons.IH [OF rest, of "spec_free_range sb s (nat n)"] z show ?case
    by (simp add: spec_release_def)
qed

lemma unlink_pool:
  assumes "file_wf ino"
  shows "fold (\<lambda>(s, n) sb'. free_run sb' s n) (zip (i_blocks_ptr ino) (i_blocks_length ino)) sb
           = spec_release sb (extents ino)"
proof -
  let ?P = "\<lambda>(s, n). n \<noteq> (- 1 :: int)"
  let ?zs = "zip (i_blocks_ptr ino) (i_blocks_length ino)"
  have "fold (\<lambda>(s, n) sb'. free_run sb' s n) ?zs sb
          = fold (\<lambda>(s, n) sb'. free_run sb' s n) (takeWhile ?P ?zs @ dropWhile ?P ?zs) sb"
    by (simp only: takeWhile_dropWhile_id)
  also have "\<dots> = fold (\<lambda>(s, n) sb'. free_run sb' s n) (dropWhile ?P ?zs)
                      (fold (\<lambda>(s, n) sb'. free_run sb' s n) (takeWhile ?P ?zs) sb)"
    by (simp only: fold_append comp_apply)
  also have "\<dots> = fold (\<lambda>(s, n) sb'. free_run sb' s n) (takeWhile ?P ?zs) sb"
    using assms by (intro fold_free_run_unused) (simp add: file_wf_def)
  also have "\<dots> = spec_release sb (extents ino)"
    using assms unfolding extents_def
    by (intro fold_free_run_extents) (simp add: file_wf_def extents_def)
  finally show ?thesis .
qed

lemma osfs_unlink_wf:
  assumes "file_wf ino"
  shows "osfs_unlink sb ino = Some (0, spec_release sb (extents ino), unlinked ino)"
proof -
  from assms have l: "length (i_blocks_ptr ino) = i_blocks ino"
    "length (i_blocks_length ino) = i_blocks ino"
    by (simp_all add: file_wf_def)
  from unlink_loop_result [OF l, of 0 sb] unlink_pool [OF assms, of sb]
  show ?thesis by (simp add: osfs_unlink_def unlinked_def)
qed

lemma zip_replicate_unused:
  "zip (replicate k a) (replicate k (- 1 :: int)) = replicate k (a, - 1)"
  by (induction k) simp_all

lemma extents_unlinked: "extents (unlinked ino) = []"
  by (cases "i_blocks ino") (simp_all add: extents_def unlinked_def zip_replicate_unused)

lemma file_wf_unlinked: "file_wf (unlinked ino)"
proof -
  have "list_all (\<lambda>(s, n). n = - 1)
          (dropWhile (\<lambda>(s, n). n \<noteq> - 1) (replicate (i_blocks ino) (NO_BLOCK, - 1 :: int)))"
    by (cases "i_blocks ino") (simp_all add: list_all_iff)
  moreover have "extents (unlinked ino) = []" by (rule extents_unlinked)
  ultimately show ?thesis
    unfolding file_wf_def by (simp add: unlinked_def zip_replicate_unused)
qed

lemma unlinked_idem: "unlinked (unlinked ino) = unlinked ino"
  by (simp add: unlinked_def)

text \<open>
  C6, as the claim states it: unlinking the example file, whose size is 8, frees its two
  blocks and marks both slots unused, and leaves \<^verbatim>\<open>i_size\<close> = 8, not 0.
\<close>

theorem osfs_unlink_keeps_size_counterexample:
  "osfs_unlink written_pool two_extent_file
     = Some (0, written_pool\<lparr>nr_free_blocks := 2, block_bitmap := [False, True, False]\<rparr>,
             two_extent_file\<lparr>i_blocks_ptr := [NO_BLOCK, NO_BLOCK], i_blocks_length := [- 1, - 1]\<rparr>) \<and>
   i_size (two_extent_file\<lparr>i_blocks_ptr := [NO_BLOCK, NO_BLOCK], i_blocks_length := [- 1, - 1]\<rparr>) = 8"
  by (simp add: osfs_unlink_def unlink_loop.simps free_run_def osfs_free_data_block_def
        clear_bit_def two_extent_file_def written_pool_def)

text \<open>
  C6, amended: for a file whose arrays are well formed, \<^verbatim>\<open>osfs_unlink\<close> returns 0; the pool
  is the one that \<open>free_range\<close> on every extent of the list gives; every slot of the two
  arrays is marked unused, so the extent list is empty; \<^verbatim>\<open>i_size\<close> and \<^verbatim>\<open>i_blocks\<close> are left
  as they were. Unlinking once more changes nothing, and for a file whose list is empty
  the bitmap and the counter stay as they are.
\<close>

theorem osfs_unlink_releases:
  "file_wf ino \<Longrightarrow>
     osfs_unlink sb ino = Some (0, spec_release sb (extents ino), unlinked ino) \<and>
     extents (unlinked ino) = [] \<and>
     i_size (unlinked ino) = i_size ino \<and> i_blocks (unlinked ino) = i_blocks ino \<and>
     osfs_unlink (spec_release sb (extents ino)) (unlinked ino)
       = Some (0, spec_release sb (extents ino), unlinked ino) \<and>
     (extents ino = [] \<longrightarrow>
        block_bitmap (spec_release sb (extents ino)) = block_bitmap sb \<and>
        nr_free_blocks (spec_release sb (extents ino)) = nr_free_blocks sb)"
proof -
  assume wf: "file_wf ino"
  have a: "osfs_unlink sb ino = Some (0, spec_release sb (extents ino), unlinked ino)"
    by (rule osfs_unlink_wf [OF wf])
  have b: "osfs_unlink (spec_release sb (extents ino)) (unlinked ino)
       = Some (0, spec_release sb (extents ino), unlinked ino)"
    using osfs_unlink_wf [OF file_wf_unlinked, of "spec_release sb (extents ino)" ino]
    by (simp add: extents_unlinked unlinked_idem spec_release_def)
  have c: "i_size (unlinked ino) = i_size ino \<and> i_blocks (unlinked ino) = i_blocks ino"
    by (simp add: unlinked_def)
  have d: "extents ino = [] \<longrightarrow>
        block_bitmap (spec_release sb (extents ino)) = block_bitmap sb \<and>
        nr_free_blocks (spec_release sb (extents ino)) = nr_free_blocks sb"
    by (simp add: spec_release_def)
  from a b c d extents_unlinked show ?thesis by blast
qed

text \<open>The theorem at the example file: the blocks 0 and 2 are free afterwards.\<close>

theorem osfs_unlink_releases_witness:
  "file_wf two_extent_file \<and> extents two_extent_file = [(0, 1), (2, 1)] \<and>
   osfs_unlink written_pool two_extent_file
     = Some (0, spec_release written_pool [(0, 1), (2, 1)], unlinked two_extent_file) \<and>
   block_bitmap (spec_release written_pool [(0, 1), (2, 1)]) = [False, True, False] \<and>
   nr_free_blocks (spec_release written_pool [(0, 1), (2, 1)]) = 2"
proof -
  have e: "extents two_extent_file = [(0, 1), (2, 1)]"
    by (simp add: extents_def two_extent_file_def)
  have wf: "file_wf two_extent_file"
    unfolding file_wf_def e by (simp add: two_extent_file_def)
  have r: "block_bitmap (spec_release written_pool [(0, 1), (2, 1)]) = [False, True, False] \<and>
   nr_free_blocks (spec_release written_pool [(0, 1), (2, 1)]) = 2"
    by (simp add: spec_release_def spec_free_range_def written_pool_def upt_rec)
  from osfs_unlink_releases [OF wf, of written_pool] e r wf show ?thesis by simp
qed

section \<open>Invariants of the scans\<close>

lemma zero_bits_update:
  "i < length bm \<Longrightarrow>
   zero_bits (bm[i := v]) = zero_bits bm - (if bm ! i then 0 else 1) + (if v then 0 else 1)"
proof (induction bm arbitrary: i)
  case Nil
  then show ?case by simp
next
  case (Cons b bm)
  show ?case
  proof (cases i)
    case 0
    then show ?thesis by (simp add: zero_bits_def)
  next
    case (Suc k)
    with Cons.prems have "k < length bm" by simp
    from Cons.IH [OF this, unfolded zero_bits_def] Suc show ?thesis
      by (cases v; cases "bm ! k"; cases b; simp add: zero_bits_def)
  qed
qed

lemma zero_bits_all_set: "bm = replicate n True \<Longrightarrow> zero_bits bm = 0"
  by (simp add: zero_bits_def)

lemma all_set_replicate:
  "length bm = n \<Longrightarrow> (\<forall>j<n. bm ! j) \<Longrightarrow> bm = replicate n True"
  by (rule nth_equalityI) simp_all

lemma claim_free_bit:
  assumes "pool_wf sb" and "i < block_count sb" and "\<not> test_bit i (block_bitmap sb)"
    and "\<forall>j<i. block_bitmap sb ! j"
  shows "pool_wf (sb\<lparr>block_bitmap := set_bit i (block_bitmap sb),
                       nr_free_blocks := nr_free_blocks sb - 1\<rparr>)"
    and "slack (sb\<lparr>block_bitmap := set_bit i (block_bitmap sb),
                     nr_free_blocks := nr_free_blocks sb - 1\<rparr>) = slack sb"
    and "\<forall>j<i + 1. set_bit i (block_bitmap sb) ! j"
proof -
  from assms(1,2) have i: "i < length (block_bitmap sb)" by (simp add: pool_wf_def)
  show "pool_wf (sb\<lparr>block_bitmap := set_bit i (block_bitmap sb),
                       nr_free_blocks := nr_free_blocks sb - 1\<rparr>)"
    using assms(1) by (simp add: pool_wf_def set_bit_def)
  show "slack (sb\<lparr>block_bitmap := set_bit i (block_bitmap sb),
                     nr_free_blocks := nr_free_blocks sb - 1\<rparr>) = slack sb"
    using i assms(3) by (simp add: slack_def set_bit_def test_bit_def zero_bits_update)
  show "\<forall>j<i + 1. set_bit i (block_bitmap sb) ! j"
    using i assms(4) by (auto simp: set_bit_def nth_list_update less_Suc_eq)
qed

lemma realloc_extend_inv:
  "realloc_extend block_needed i st = Some (r, i', st') \<Longrightarrow> pool_wf (pool st) \<Longrightarrow>
   \<forall>j<i. block_bitmap (pool st) ! j \<Longrightarrow>
     pool_wf (pool st') \<and> slack (pool st') = slack (pool st) \<and>
     (\<forall>j<i'. block_bitmap (pool st') ! j)"
proof (induction block_needed i st arbitrary: r i' st' rule: realloc_extend.induct)
  case (1 block_needed i st)
  show ?case
  proof (cases "i < block_count (pool st) \<and> \<not> test_bit i (block_bitmap (pool st))")
    case False
    with "1.prems" show ?thesis
      by (subst (asm) realloc_extend.simps) auto
  next
    case True
    then have i: "i < block_count (pool st)" and f: "\<not> test_bit i (block_bitmap (pool st))"
      by simp_all
    from "1.prems"(1) True have idx: "block_idx st < length (block_length st)"
      by (subst (asm) realloc_extend.simps) (simp split: if_splits)
    note c = claim_free_bit [OF "1.prems"(2) i f "1.prems"(3)]
    have wf: "pool_wf (pool (extend_step i st))"
      using c(1) by (simp add: extend_step_def)
    have sl: "slack (pool (extend_step i st)) = slack (pool st)"
      using c(2) by (simp add: extend_step_def)
    have al: "\<forall>j<i + 1. block_bitmap (pool (extend_step i st)) ! j"
      using c(3) by (simp add: extend_step_def)
    show ?thesis
    proof (cases "blk_cnt (extend_step i st) = block_needed")
      case True
      with "1.prems"(1) i f idx have "i' = i + 1" "st' = extend_step i st"
        by (subst (asm) realloc_extend.simps; simp)+
      with wf sl al show ?thesis by simp
    next
      case False
      with "1.prems"(1) i f idx
      have "realloc_extend block_needed (i + 1) (extend_step i st) = Some (r, i', st')"
        by (subst (asm) realloc_extend.simps) simp
      from "1.IH" [OF True idx False this wf al] sl show ?thesis by simp
    qed
  qed
qed

lemma realloc_scan_inv:
  "realloc_scan block_needed i st = Some (rc, st') \<Longrightarrow> pool_wf (pool st) \<Longrightarrow>
   \<forall>j<i. block_bitmap (pool st) ! j \<Longrightarrow>
     pool_wf (pool st') \<and> slack (pool st') = slack (pool st) \<and>
     block_count (pool st') = block_count (pool st) \<and>
     (rc = - ENOSPC \<longrightarrow> (\<forall>j<block_count (pool st). block_bitmap (pool st') ! j))"
proof (induction block_needed i st arbitrary: rc st' rule: realloc_scan.induct)
  case (1 block_needed i st)
  show ?case
  proof (cases "i < block_count (pool st)")
    case False
    with "1.prems"(1) have "rc = - ENOSPC" "st' = st"
      by (subst (asm) realloc_scan.simps; simp)+
    with False "1.prems" show ?thesis by simp
  next
    case True
    note i = True
    show ?thesis
    proof (cases "test_bit i (block_bitmap (pool st))")
      case True
      with i "1.prems"(1) have "realloc_scan block_needed (i + 1) st = Some (rc, st')"
        by (subst (asm) realloc_scan.simps) simp
      moreover from True "1.prems"(3) have "\<forall>j<i + 1. block_bitmap (pool st) ! j"
        by (auto simp: test_bit_def less_Suc_eq)
      ultimately show ?thesis
        using "1.IH"(2) [OF i _ _ "1.prems"(2)] True by simp
    next
      case False
      note f = False
      from "1.prems"(1) i f
      have idx: "block_idx st < length (block_nos st) \<and> block_idx st < length (block_length st)"
        by (subst (asm) realloc_scan.simps) (simp split: if_splits)
      note c = claim_free_bit [OF "1.prems"(2) i f "1.prems"(3)]
      have wf: "pool_wf (pool (claim_first i st))"
        using c(1) by (simp add: claim_first_def)
      have sl: "slack (pool (claim_first i st)) = slack (pool st)"
        using c(2) by (simp add: claim_first_def)
      have al: "\<forall>j<i + 1. block_bitmap (pool (claim_first i st)) ! j"
        using c(3) by (simp add: claim_first_def)
      have bc: "block_count (pool (claim_first i st)) = block_count (pool st)"
        by (simp add: claim_first_def)
      have zero: "(0::int) \<noteq> - ENOSPC" by (simp add: ENOSPC_def)
      show ?thesis
      proof (cases "blk_cnt (claim_first i st) = block_needed")
        case True
        with "1.prems"(1) i f idx have "rc = 0" "st' = claim_first i st"
          by (subst (asm) realloc_scan.simps; simp)+
        with wf sl bc zero show ?thesis by simp
      next
        case False
        note ne = False
        from "1.prems"(1) i f idx ne obtain r i1 st1 where
          ext: "realloc_extend block_needed (i + 1) (claim_first i st) = Some (r, i1, st1)"
          by (subst (asm) realloc_scan.simps) (auto split: option.splits)
        note e = realloc_extend_inv [OF ext wf al]
        from realloc_extend_pos [OF ext] bc
        have bc1: "block_count (pool st1) = block_count (pool st)" by simp
        show ?thesis
        proof (cases r)
          case True
          with "1.prems"(1) i f idx ne ext have "rc = 0" "st' = st1"
            by (subst (asm) realloc_scan.simps; simp)+
          with e sl bc1 zero show ?thesis by simp
        next
          case False
          with "1.prems"(1) i f idx ne ext
          have rec: "realloc_scan block_needed i1 (st1\<lparr>block_idx := block_idx st1 + 1\<rparr>) = Some (rc, st')"
            by (subst (asm) realloc_scan.simps) simp
          have "pool_wf (pool (st1\<lparr>block_idx := block_idx st1 + 1\<rparr>))"
            "\<forall>j<i1. block_bitmap (pool (st1\<lparr>block_idx := block_idx st1 + 1\<rparr>)) ! j"
            using e by simp_all
          from "1.IH"(1) [OF i f idx ne ext refl refl False rec this] e sl bc1
          show ?thesis by simp
        qed
      qed
    qed
  qed
qed


lemma set_bit_below:
  assumes "pool_wf sb" and "i < block_count sb" and "\<forall>j<i. block_bitmap sb ! j"
  shows "pool_wf (sb\<lparr>block_bitmap := set_bit i (block_bitmap sb),
                       nr_free_blocks := nr_free_blocks sb - 1\<rparr>)"
    and "\<forall>j<i + 1. set_bit i (block_bitmap sb) ! j"
proof -
  from assms(1,2) have i: "i < length (block_bitmap sb)" by (simp add: pool_wf_def)
  show "pool_wf (sb\<lparr>block_bitmap := set_bit i (block_bitmap sb),
                       nr_free_blocks := nr_free_blocks sb - 1\<rparr>)"
    using assms(1) by (simp add: pool_wf_def set_bit_def)
  show "\<forall>j<i + 1. set_bit i (block_bitmap sb) ! j"
    using i assms(3) by (auto simp: set_bit_def nth_list_update less_Suc_eq)
qed

lemma alloc_extend_inv:
  "alloc_extend block_needed i st = Some (r, i', st') \<Longrightarrow> pool_wf (pool st) \<Longrightarrow>
   \<forall>j<i. block_bitmap (pool st) ! j \<Longrightarrow>
     pool_wf (pool st') \<and> (\<forall>j<i'. block_bitmap (pool st') ! j)"
proof (induction block_needed i st arbitrary: r i' st' rule: alloc_extend.induct)
  case (1 block_needed i st)
  show ?case
  proof (cases "i < block_count (pool st) \<and> test_bit i (block_bitmap (pool st))")
    case False
    with "1.prems" show ?thesis
      by (subst (asm) alloc_extend.simps) auto
  next
    case True
    then have i: "i < block_count (pool st)" and f: "test_bit i (block_bitmap (pool st))"
      by simp_all
    from "1.prems"(1) True
    have idx: "0 \<le> blk_cnt st \<and> nat (blk_cnt st) < length (block_length st)"
      by (subst (asm) alloc_extend.simps) (simp split: if_splits)
    note c = set_bit_below [OF "1.prems"(2) i "1.prems"(3)]
    have wf: "pool_wf (pool (alloc_extend_step i st))"
      using c(1) by (simp add: alloc_extend_step_def)
    have al: "\<forall>j<i + 1. block_bitmap (pool (alloc_extend_step i st)) ! j"
      using c(2) by (simp add: alloc_extend_step_def)
    show ?thesis
    proof (cases "blk_cnt (alloc_extend_step i st) = block_needed")
      case True
      with "1.prems"(1) i f idx have "i' = i + 1" "st' = alloc_extend_step i st"
        by (subst (asm) alloc_extend.simps; simp)+
      with wf al show ?thesis by simp
    next
      case False
      with "1.prems"(1) i f idx
      have "alloc_extend block_needed (i + 1) (alloc_extend_step i st) = Some (r, i', st')"
        by (subst (asm) alloc_extend.simps) simp
      from "1.IH" [OF True idx False this wf al] show ?thesis by simp
    qed
  qed
qed

lemma alloc_scan_inv:
  "alloc_scan block_needed i st = Some (rc, st') \<Longrightarrow> pool_wf (pool st) \<Longrightarrow>
   \<forall>j<i. block_bitmap (pool st) ! j \<Longrightarrow>
     pool_wf (pool st') \<and> block_count (pool st') = block_count (pool st) \<and>
     (rc = - ENOSPC \<longrightarrow> (\<forall>j<block_count (pool st). block_bitmap (pool st') ! j))"
proof (induction block_needed i st arbitrary: rc st' rule: alloc_scan.induct)
  case (1 block_needed i st)
  show ?case
  proof (cases "i < block_count (pool st)")
    case False
    with "1.prems"(1) have "rc = - ENOSPC" "st' = st"
      by (subst (asm) alloc_scan.simps; simp)+
    with False "1.prems" show ?thesis by simp
  next
    case True
    note i = True
    show ?thesis
    proof (cases "test_bit i (block_bitmap (pool st))")
      case True
      with i "1.prems"(1) have "alloc_scan block_needed (i + 1) st = Some (rc, st')"
        by (subst (asm) alloc_scan.simps) simp
      moreover from True "1.prems"(3) have "\<forall>j<i + 1. block_bitmap (pool st) ! j"
        by (auto simp: test_bit_def less_Suc_eq)
      ultimately show ?thesis
        using "1.IH"(2) [OF i _ _ "1.prems"(2)] True by simp
    next
      case False
      note f = False
      from "1.prems"(1) i f
      have idx: "block_idx st < length (block_nos st) \<and> block_idx st < length (block_length st)"
        by (subst (asm) alloc_scan.simps) (simp split: if_splits)
      note c = set_bit_below [OF "1.prems"(2) i "1.prems"(3)]
      have wf: "pool_wf (pool (claim_first i st))"
        using c(1) by (simp add: claim_first_def)
      have al: "\<forall>j<i + 1. block_bitmap (pool (claim_first i st)) ! j"
        using c(2) by (simp add: claim_first_def)
      have bc: "block_count (pool (claim_first i st)) = block_count (pool st)"
        by (simp add: claim_first_def)
      have zero: "(0::int) \<noteq> - ENOSPC" by (simp add: ENOSPC_def)
      show ?thesis
      proof (cases "blk_cnt (claim_first i st) = block_needed")
        case True
        with "1.prems"(1) i f idx have "rc = 0" "st' = claim_first i st"
          by (subst (asm) alloc_scan.simps; simp)+
        with wf bc zero show ?thesis by simp
      next
        case False
        note ne = False
        from "1.prems"(1) i f idx ne obtain r i1 st1 where
          ext: "alloc_extend block_needed (i + 1) (claim_first i st) = Some (r, i1, st1)"
          by (subst (asm) alloc_scan.simps) (auto split: option.splits)
        note e = alloc_extend_inv [OF ext wf al]
        from alloc_extend_pos [OF ext] bc
        have bc1: "block_count (pool st1) = block_count (pool st)" by simp
        show ?thesis
        proof (cases r)
          case True
          with "1.prems"(1) i f idx ne ext have "rc = 0" "st' = st1"
            by (subst (asm) alloc_scan.simps; simp)+
          with e bc1 zero show ?thesis by simp
        next
          case False
          with "1.prems"(1) i f idx ne ext
          have rec: "alloc_scan block_needed i1 st1 = Some (rc, st')"
            by (subst (asm) alloc_scan.simps) simp
          from "1.IH"(1) [OF i f idx ne ext refl refl False rec] e bc1
          show ?thesis by simp
        qed
      qed
    qed
  qed
qed

lemma alloc_data_block_loop_consistent:
  "consistent sb \<Longrightarrow> \<forall>j<i. block_bitmap sb ! j \<Longrightarrow>
     consistent (fst (snd (alloc_data_block_loop sb i)))"
proof (induction sb i rule: alloc_data_block_loop.induct)
  case (1 sb i)
  show ?case
  proof (cases "i < block_count sb")
    case False
    with "1.prems" show ?thesis by (subst alloc_data_block_loop.simps) simp
  next
    case True
    note i = True
    show ?thesis
    proof (cases "test_bit i (block_bitmap sb)")
      case True
      with "1.prems"(2) have "\<forall>j<i + 1. block_bitmap sb ! j"
        by (auto simp: test_bit_def less_Suc_eq)
      from "1.IH" [OF i _ "1.prems"(1) this] True i show ?thesis
        by (subst alloc_data_block_loop.simps) simp
    next
      case False
      from "1.prems"(1) have wf: "pool_wf sb" and sl: "slack sb = 0"
        by (simp_all add: consistent_def slack_def)
      from claim_free_bit(1,2) [OF wf i False "1.prems"(2)] sl
      have "consistent (sb\<lparr>block_bitmap := set_bit i (block_bitmap sb),
                            nr_free_blocks := nr_free_blocks sb - 1\<rparr>)"
        by (simp add: consistent_def slack_def)
      with i False show ?thesis
        by (subst alloc_data_block_loop.simps) simp
    qed
  qed
qed

lemma osfs_alloc_data_block_consistent:
  "consistent sb \<Longrightarrow> consistent (fst (snd (osfs_alloc_data_block sb)))"
  unfolding osfs_alloc_data_block_def by (rule alloc_data_block_loop_consistent) simp_all

lemma realloc_result:
  assumes "osfs_realloc_multiple_data_blocks sb nos lens block_needed = Some (rc, sb', nos', lens')"
    and "pool_wf sb"
  shows "pool_wf sb' \<and> slack sb' = slack sb \<and> block_count sb' = block_count sb \<and>
         (rc = - ENOSPC \<longrightarrow> block_bitmap sb' = replicate (block_count sb) True)"
proof -
  from assms(1) obtain idx cnt st' where
    sc: "realloc_scan block_needed 0
           \<lparr>pool = sb, block_nos = nos, block_length = lens, block_idx = idx, blk_cnt = cnt\<rparr>
         = Some (rc, st')" and sb': "sb' = pool st'"
    by (auto simp: osfs_realloc_multiple_data_blocks_def split: option.splits prod.splits)
  from realloc_scan_inv [OF sc] assms(2)
  have r: "pool_wf sb'" "slack sb' = slack sb" "block_count sb' = block_count sb"
    "rc = - ENOSPC \<longrightarrow> (\<forall>j<block_count sb. block_bitmap sb' ! j)"
    by (simp_all add: sb')
  from r(1,3) have "length (block_bitmap sb') = block_count sb" by (simp add: pool_wf_def)
  from all_set_replicate [OF this] r show ?thesis by blast
qed

lemma alloc_multiple_result:
  assumes "osfs_alloc_multiple_data_blocks sb nos lens block_needed = Some (rc, sb', nos', lens')"
    and "pool_wf sb"
  shows "pool_wf sb' \<and> block_count sb' = block_count sb \<and>
         (rc = - ENOSPC \<longrightarrow> block_bitmap sb' = replicate (block_count sb) True)"
proof -
  from assms(1) obtain st' where
    sc: "alloc_scan block_needed 0
           \<lparr>pool = sb, block_nos = nos, block_length = lens, block_idx = 0, blk_cnt = 0\<rparr>
         = Some (rc, st')" and sb': "sb' = pool st'"
    by (auto simp: osfs_alloc_multiple_data_blocks_def split: option.splits prod.splits)
  from alloc_scan_inv [OF sc] assms(2)
  have r: "pool_wf sb'" "block_count sb' = block_count sb"
    "rc = - ENOSPC \<longrightarrow> (\<forall>j<block_count sb. block_bitmap sb' ! j)"
    by (simp_all add: sb')
  from r(1,2) have "length (block_bitmap sb') = block_count sb" by (simp add: pool_wf_def)
  from all_set_replicate [OF this] r show ?thesis by blast
qed

lemma zero_bits_0_all_set:
  "length bm = n \<Longrightarrow> zero_bits bm = 0 \<Longrightarrow> bm = replicate n True"
proof (rule nth_equalityI)
  assume l: "length bm = n" and z: "zero_bits bm = 0"
  show "length bm = length (replicate n True)" using l by simp
  fix i assume "i < length bm"
  then have "bm ! i \<in> set bm" by (rule nth_mem)
  moreover from z have "\<forall>x\<in>set bm. x" by (simp add: zero_bits_def filter_empty_conv)
  ultimately have "bm ! i" by blast
  then show "bm ! i = replicate n True ! i" using l \<open>i < length bm\<close> by simp
qed

section \<open>An allocation that fails\<close>

text \<open>
  C3, as the claim states it: in the example pool two blocks are free;
  \<^verbatim>\<open>osfs_realloc_multiple_data_blocks\<close> asked for three blocks returns \<open>- ENOSPC\<close>, and the
  two blocks it claimed stay marked, the counter stays lowered and the two runs stay in
  the arrays of the caller.
\<close>

theorem realloc_ENOSPC_counterexample:
  "osfs_realloc_multiple_data_blocks frag_pool [NO_BLOCK, NO_BLOCK, NO_BLOCK] [- 1, - 1, - 1] 3
     = Some (- ENOSPC, frag_pool\<lparr>nr_free_blocks := 0, block_bitmap := [True, True, True]\<rparr>,
             [0, 2, NO_BLOCK], [1, 1, - 1]) \<and>
   block_bitmap frag_pool = [False, True, False] \<and> nr_free_blocks frag_pool = 2"
  by (simp add: osfs_realloc_multiple_data_blocks_def frag_pool_def alloc_eval)

text \<open>
  C3, amended: nothing is rolled back. When \<^verbatim>\<open>osfs_realloc_multiple_data_blocks\<close> or
  \<^verbatim>\<open>osfs_alloc_multiple_data_blocks\<close> returns \<open>- ENOSPC\<close> on a well-formed pool, every bit of
  the bitmap is set afterwards, so the bitmap is as before the call exactly when no block
  was free; after \<^verbatim>\<open>osfs_realloc_multiple_data_blocks\<close> the counter is lower by the number
  of blocks that were free.
\<close>

theorem no_rollback_on_ENOSPC:
  "pool_wf sb \<Longrightarrow>
   (osfs_realloc_multiple_data_blocks sb nos lens n = Some (- ENOSPC, sb', nos', lens') \<longrightarrow>
      block_bitmap sb' = replicate (block_count sb) True \<and>
      nr_free_blocks sb' = nr_free_blocks sb - zero_bits (block_bitmap sb) \<and>
      (block_bitmap sb' = block_bitmap sb) = (zero_bits (block_bitmap sb) = 0)) \<and>
   (osfs_alloc_multiple_data_blocks sb nos lens n = Some (- ENOSPC, sb', nos', lens') \<longrightarrow>
      block_bitmap sb' = replicate (block_count sb) True \<and>
      (block_bitmap sb' = block_bitmap sb) = (zero_bits (block_bitmap sb) = 0))"
proof -
  assume wf: "pool_wf sb"
  then have len: "length (block_bitmap sb) = block_count sb" by (simp add: pool_wf_def)
  have same: "(replicate (block_count sb) True = block_bitmap sb) = (zero_bits (block_bitmap sb) = 0)"
    using zero_bits_0_all_set [OF len] zero_bits_all_set [of "block_bitmap sb" "block_count sb"]
    by auto
  have a: "block_bitmap sb' = replicate (block_count sb) True \<and>
      nr_free_blocks sb' = nr_free_blocks sb - zero_bits (block_bitmap sb) \<and>
      (block_bitmap sb' = block_bitmap sb) = (zero_bits (block_bitmap sb) = 0)"
    if r: "osfs_realloc_multiple_data_blocks sb nos lens n = Some (- ENOSPC, sb', nos', lens')"
  proof -
    from realloc_result [OF r wf]
    have bm: "block_bitmap sb' = replicate (block_count sb) True" and sl: "slack sb' = slack sb"
      by simp_all
    from bm have "zero_bits (block_bitmap sb') = 0" by (rule zero_bits_all_set)
    with sl have "nr_free_blocks sb' = nr_free_blocks sb - zero_bits (block_bitmap sb)"
      by (simp add: slack_def)
    with bm same show ?thesis by simp
  qed
  have b: "block_bitmap sb' = replicate (block_count sb) True \<and>
      (block_bitmap sb' = block_bitmap sb) = (zero_bits (block_bitmap sb) = 0)"
    if r: "osfs_alloc_multiple_data_blocks sb nos lens n = Some (- ENOSPC, sb', nos', lens')"
  proof -
    from alloc_multiple_result [OF r wf]
    have bm: "block_bitmap sb' = replicate (block_count sb) True"
      by simp
    with same show ?thesis by simp
  qed
  from a b show ?thesis by blast
qed

text \<open>The theorem at the example pool, asked for three and for four blocks.\<close>

theorem no_rollback_on_ENOSPC_witness:
  "pool_wf frag_pool \<and>
   osfs_realloc_multiple_data_blocks frag_pool [NO_BLOCK, NO_BLOCK, NO_BLOCK] [- 1, - 1, - 1] 3
     = Some (- ENOSPC, frag_pool\<lparr>nr_free_blocks := 0, block_bitmap := [True, True, True]\<rparr>,
             [0, 2, NO_BLOCK], [1, 1, - 1]) \<and>
   osfs_alloc_multiple_data_blocks frag_pool [NO_BLOCK, NO_BLOCK, NO_BLOCK, NO_BLOCK] [- 1, - 1, - 1, - 1] 4
     = Some (- ENOSPC, frag_pool\<lparr>nr_free_blocks := - 1, block_bitmap := [True, True, True]\<rparr>,
             [2, NO_BLOCK, NO_BLOCK, NO_BLOCK], [1, 0, - 1, - 1]) \<and>
   block_bitmap (frag_pool\<lparr>nr_free_blocks := 0, block_bitmap := [True, True, True]\<rparr>)
     = replicate (block_count frag_pool) True \<and>
   nr_free_blocks (frag_pool\<lparr>nr_free_blocks := 0, block_bitmap := [True, True, True]\<rparr>)
     = nr_free_blocks frag_pool - zero_bits (block_bitmap frag_pool) \<and>
   block_bitmap (frag_pool\<lparr>nr_free_blocks := - 1, block_bitmap := [True, True, True]\<rparr>)
     = replicate (block_count frag_pool) True"
proof -
  have wf: "pool_wf frag_pool" by (simp add: pool_wf_def frag_pool_def)
  have r: "osfs_realloc_multiple_data_blocks frag_pool [NO_BLOCK, NO_BLOCK, NO_BLOCK] [- 1, - 1, - 1] 3
     = Some (- ENOSPC, frag_pool\<lparr>nr_free_blocks := 0, block_bitmap := [True, True, True]\<rparr>,
             [0, 2, NO_BLOCK], [1, 1, - 1])"
    by (simp add: osfs_realloc_multiple_data_blocks_def frag_pool_def alloc_eval)
  have a: "osfs_alloc_multiple_data_blocks frag_pool [NO_BLOCK, NO_BLOCK, NO_BLOCK, NO_BLOCK] [- 1, - 1, - 1, - 1] 4
     = Some (- ENOSPC, frag_pool\<lparr>nr_free_blocks := - 1, block_bitmap := [True, True, True]\<rparr>,
             [2, NO_BLOCK, NO_BLOCK, NO_BLOCK], [1, 0, - 1, - 1])"
    by (simp add: osfs_alloc_multiple_data_blocks_def frag_pool_def alloc_eval)
  from no_rollback_on_ENOSPC [OF wf, THEN conjunct1, rule_format, OF r]
       no_rollback_on_ENOSPC [OF wf, THEN conjunct2, rule_format, OF a] wf r a
  show ?thesis by blast
qed

section \<open>Counter and bitmap\<close>

lemma apply_op_consistent:
  "consistent sb \<Longrightarrow> op_guard sb p \<Longrightarrow> apply_op sb p = Some sb' \<Longrightarrow> consistent sb'"
proof (cases p)
  case Alloc_data_block
  assume "consistent sb" "apply_op sb p = Some sb'"
  with Alloc_data_block osfs_alloc_data_block_consistent [of sb] show ?thesis by auto
next
  case (Alloc_multiple nos lens n)
  assume "op_guard sb p"
  with Alloc_multiple show ?thesis by simp
next
  case (Realloc_multiple nos lens n)
  assume c: "consistent sb" and a: "apply_op sb p = Some sb'"
  from a Realloc_multiple obtain rc nos' lens' where
    r: "osfs_realloc_multiple_data_blocks sb nos lens n = Some (rc, sb', nos', lens')"
    by (auto split: option.splits)
  from c have "pool_wf sb" "slack sb = 0" by (simp_all add: consistent_def slack_def)
  with realloc_result [OF r] show ?thesis by (simp add: consistent_def slack_def)
next
  case (Free_data_block b)
  assume c: "consistent sb" and g: "op_guard sb p" and a: "apply_op sb p = Some sb'"
  from c g Free_data_block have b: "b < length (block_bitmap sb)" "block_bitmap sb ! b"
    by (simp_all add: consistent_def pool_wf_def test_bit_def)
  from a Free_data_block have "sb' = osfs_free_data_block sb b" by simp
  with c b show ?thesis
    by (simp add: consistent_def pool_wf_def osfs_free_data_block_def clear_bit_def
          zero_bits_update)
qed

lemma run_ops_consistent:
  "consistent sb \<Longrightarrow> guarded sb ps \<Longrightarrow> run_ops sb ps = Some sb' \<Longrightarrow> consistent sb'"
proof (induction ps arbitrary: sb)
  case Nil
  then show ?case by simp
next
  case (Cons p ps)
  from Cons.prems(3) obtain sb1 where a: "apply_op sb p = Some sb1" and r: "run_ops sb1 ps = Some sb'"
    by (auto split: option.splits)
  from Cons.prems(2) a have g: "op_guard sb p" "guarded sb1 ps" by simp_all
  from apply_op_consistent [OF Cons.prems(1) g(1) a] have "consistent sb1" .
  from Cons.IH [OF this g(2) r] show ?case .
qed

lemma guarded_take: "guarded sb ps \<Longrightarrow> guarded sb (take k ps)"
proof (induction ps arbitrary: sb k)
  case Nil
  then show ?case by simp
next
  case (Cons p ps)
  show ?case
  proof (cases k)
    case 0
    then show ?thesis by simp
  next
    case (Suc k')
    with Cons show ?thesis by (auto split: option.splits)
  qed
qed

text \<open>
  C2, as the claim states it: the example pool is consistent, and freeing its block 0,
  which is free, leaves a pool whose counter is 3 with two zero bits.
\<close>

theorem free_of_free_block_counterexample:
  "consistent frag_pool \<and>
   run_ops frag_pool [Free_data_block 0] = Some (frag_pool\<lparr>nr_free_blocks := 3\<rparr>) \<and>
   \<not> consistent (frag_pool\<lparr>nr_free_blocks := 3\<rparr>)"
  by (simp add: consistent_def pool_wf_def zero_bits_def frag_pool_def osfs_free_data_block_def
        clear_bit_def)

text \<open>
  C2, amended: from a consistent pool, after every call of a sequence of calls of
  \<^verbatim>\<open>osfs_alloc_data_block\<close>, \<^verbatim>\<open>osfs_realloc_multiple_data_blocks\<close> and
  \<^verbatim>\<open>osfs_free_data_block\<close>, where every freed block is a block of the pool that is
  allocated when it is freed, \<^verbatim>\<open>nr_free_blocks\<close> is the number of zero bits of the bitmap.
  The state after \<open>k\<close> calls is \<open>run_ops sb (take k ps)\<close>.
\<close>

theorem counter_matches_bitmap:
  "consistent sb \<Longrightarrow> guarded sb ps \<Longrightarrow> run_ops sb (take k ps) = Some sb' \<Longrightarrow> consistent sb'"
  using run_ops_consistent guarded_take by blast

text \<open>
  The theorem at the example pool: one block allocated, one more by the allocator of
  runs, and block 0 freed.
\<close>

theorem counter_matches_bitmap_witness:
  "consistent frag_pool \<and>
   guarded frag_pool [Alloc_data_block, Realloc_multiple [NO_BLOCK] [- 1] 1, Free_data_block 0] \<and>
   run_ops frag_pool (take 3 [Alloc_data_block, Realloc_multiple [NO_BLOCK] [- 1] 1, Free_data_block 0])
     = Some (frag_pool\<lparr>nr_free_blocks := 1, block_bitmap := [False, True, True]\<rparr>) \<and>
   consistent (frag_pool\<lparr>nr_free_blocks := 1, block_bitmap := [False, True, True]\<rparr>)"
proof -
  have c: "consistent frag_pool"
    by (simp add: consistent_def pool_wf_def zero_bits_def frag_pool_def)
  have a1: "osfs_alloc_data_block frag_pool
              = (0, frag_pool\<lparr>nr_free_blocks := 1, block_bitmap := [True, True, False]\<rparr>, Some 0)"
    by (simp add: osfs_alloc_data_block_def alloc_data_block_loop.simps frag_pool_def
          test_bit_def set_bit_def)
  have a2: "osfs_realloc_multiple_data_blocks
              (frag_pool\<lparr>nr_free_blocks := 1, block_bitmap := [True, True, False]\<rparr>) [NO_BLOCK] [- 1] 1
              = Some (0, frag_pool\<lparr>nr_free_blocks := 0, block_bitmap := [True, True, True]\<rparr>, [2], [1])"
    by (simp add: osfs_realloc_multiple_data_blocks_def frag_pool_def alloc_eval)
  have a3: "osfs_free_data_block (frag_pool\<lparr>nr_free_blocks := 0, block_bitmap := [True, True, True]\<rparr>) 0
              = frag_pool\<lparr>nr_free_blocks := 1, block_bitmap := [False, True, True]\<rparr>"
    by (simp add: osfs_free_data_block_def clear_bit_def frag_pool_def)
  have g: "guarded frag_pool [Alloc_data_block, Realloc_multiple [NO_BLOCK] [- 1] 1, Free_data_block 0]"
    by (simp add: a1 a2 a3) (simp add: frag_pool_def test_bit_def)
  have r: "run_ops frag_pool (take 3 [Alloc_data_block, Realloc_multiple [NO_BLOCK] [- 1] 1, Free_data_block 0])
     = Some (frag_pool\<lparr>nr_free_blocks := 1, block_bitmap := [False, True, True]\<rparr>)"
    by (simp add: a1 a2 a3)
  from counter_matches_bitmap [OF c g r] c g r show ?thesis by blast
qed

end
